theory Spec2Isabelle
  imports Complex_Main "HOL-Library.Word" "HOL-Library.Option_ord"
begin

unbundle bit_operations_syntax

section \<open>The heightmap renderer of libfive (ao/render/heightmap.cpp)\<close>

text \<open>
  The renderer is the three functions \<open>pixels\<close>, \<open>recurse\<close> and \<open>Render\<close> of namespace
  \<open>Heightmap\<close>. They are embedded below as functions on an explicit machine state.
  \<open>Region\<close>, \<open>Interval\<close>, \<open>Tree\<close>, \<open>Gradient\<close>, the macro \<open>REGION_ITERATE_XYZ\<close> and
  \<open>Result::count\<close> are used by these functions but are declared elsewhere; each of them
  is either a parameter of the model or modelled from the specification, and marked so.
\<close>

subsection \<open>Doubles that take part in arithmetic\<close>

text \<open>
  The field values, the voxel positions and the derivatives are taken to be finite and
  are modelled as reals (no rounding). The one computation that can leave the finite
  range is the division in the normal packing, so its result is a value of \<open>fp\<close>, with
  the IEEE results of a division by zero. Signed zeros are not distinguished.
\<close>

datatype fp = Finite real | PosInf | NegInf | NaN

fun fdiv :: "real \<Rightarrow> real \<Rightarrow> fp" where
  "fdiv a b =
     (if b = 0 then (if a = 0 then NaN else if 0 < a then PosInf else NegInf)
      else Finite (a / b))"

fun fadd :: "fp \<Rightarrow> real \<Rightarrow> fp" where
  "fadd (Finite a) b = Finite (a + b)"
| "fadd PosInf b = PosInf"
| "fadd NegInf b = NegInf"
| "fadd NaN b = NaN"

fun fmul :: "real \<Rightarrow> fp \<Rightarrow> fp" where
  "fmul c (Finite a) = Finite (c * a)"
| "fmul c PosInf = (if c = 0 then NaN else if 0 < c then PosInf else NegInf)"
| "fmul c NegInf = (if c = 0 then NaN else if 0 < c then NegInf else PosInf)"
| "fmul c NaN = NaN"

text \<open>
  The conversion of a double to \<open>uint32_t\<close> truncates towards zero; it is undefined when
  the truncated value does not fit, and for infinities and NaN. \<open>None\<close> stands for the
  undefined result.
\<close>

definition trunc :: "real \<Rightarrow> int" where
  "trunc v = (if 0 \<le> v then \<lfloor>v\<rfloor> else \<lceil>v\<rceil>)"

fun to_uint32 :: "fp \<Rightarrow> 32 word option" where
  "to_uint32 (Finite v) =
     (if 0 \<le> trunc v \<and> trunc v < 2 ^ 32 then Some (word_of_int (trunc v)) else None)"
| "to_uint32 PosInf = None"
| "to_uint32 NegInf = None"
| "to_uint32 NaN = None"

subsection \<open>Gradients and the packed normal (the body of the lambda \<open>run\<close>)\<close>

text \<open>The three derivative fields of \<open>Gradient\<close> that \<open>run\<close> reads.\<close>

record gradient =
  dx :: real
  dy :: real
  dz :: real

definition len :: "gradient \<Rightarrow> real" where
  "len g = sqrt ((dx g)\<^sup>2 + (dy g)\<^sup>2 + (dz g)\<^sup>2)"

text \<open>\<open>uint32_t d = 255 * (c / (2 * len) + 0.5)\<close>\<close>

definition channel :: "real \<Rightarrow> real \<Rightarrow> 32 word option" where
  "channel c l = to_uint32 (fmul 255 (fadd (fdiv c (2 * l)) (1 / 2)))"

text \<open>\<open>(0xff << 24) | (dz << 16) | (dy << 8) | dx\<close>, undefined when a channel is.\<close>

definition pack :: "gradient \<Rightarrow> 32 word option" where
  "pack g =
     (case (channel (dx g) (len g), channel (dy g) (len g), channel (dz g) (len g)) of
        (Some x, Some y, Some z) \<Rightarrow>
          Some (push_bit 24 (0xff :: 32 word) OR push_bit 16 z OR push_bit 8 y OR x)
      | _ \<Rightarrow> None)"

subsection \<open>Regions\<close>

text \<open>
  Modelled from the spec: \<open>Interval\<close> is not under src/. The specification describes it
  as a pair of lower and upper bounds over the reals.
\<close>

record interval =
  lower :: real
  upper :: real

text \<open>
  Modelled from the spec: \<open>Region\<close> is not under src/. The renderer reads, of each axis,
  the fields \<open>interval\<close>, \<open>min\<close> (the offset of the axis in the image) and \<open>size\<close> (its
  number of voxels), and calls \<open>pos\<close>, \<open>voxels\<close>, \<open>canSplit\<close> and \<open>split\<close>. The
  specification describes a region as three independent axis descriptors that support
  the bounding interval per axis, the total voxel count, and a split into two
  sub-regions along the largest axis, a region of one voxel per axis not being
  splittable. \<open>pos a i\<close> is the centre of voxel \<open>i\<close>. The comment of \<open>recurse\<close> says that
  the higher region is the second item of the split.
\<close>

record axis =
  interval :: interval
  min_ax :: nat
  size_ax :: nat

record region =
  X :: axis
  Y :: axis
  Z :: axis

definition pos :: "axis \<Rightarrow> nat \<Rightarrow> real" where
  "pos a i =
     lower (interval a) +
       (upper (interval a) - lower (interval a)) * (real i + 1 / 2) / real (size_ax a)"

definition voxels :: "region \<Rightarrow> nat" where
  "voxels r = size_ax (X r) * size_ax (Y r) * size_ax (Z r)"

definition canSplit :: "region \<Rightarrow> bool" where
  "canSplit r \<longleftrightarrow> 1 < size_ax (X r) \<or> 1 < size_ax (Y r) \<or> 1 < size_ax (Z r)"

definition middle :: "axis \<Rightarrow> real" where
  "middle a =
     lower (interval a) +
       (upper (interval a) - lower (interval a)) * real (size_ax a div 2) / real (size_ax a)"

definition split_axis :: "axis \<Rightarrow> axis \<times> axis" where
  "split_axis a =
     (a\<lparr>interval := \<lparr>lower = lower (interval a), upper = middle a\<rparr>,
        size_ax := size_ax a div 2\<rparr>,
      a\<lparr>interval := \<lparr>lower = middle a, upper = upper (interval a)\<rparr>,
        min_ax := min_ax a + size_ax a div 2,
        size_ax := size_ax a - size_ax a div 2\<rparr>)"

definition split :: "region \<Rightarrow> region \<times> region" where
  "split r =
     (if size_ax (Y r) \<le> size_ax (X r) \<and> size_ax (Z r) \<le> size_ax (X r) then
        (r\<lparr>X := fst (split_axis (X r))\<rparr>, r\<lparr>X := snd (split_axis (X r))\<rparr>)
      else if size_ax (Z r) \<le> size_ax (Y r) then
        (r\<lparr>Y := fst (split_axis (Y r))\<rparr>, r\<lparr>Y := snd (split_axis (Y r))\<rparr>)
      else
        (r\<lparr>Z := fst (split_axis (Z r))\<rparr>, r\<lparr>Z := snd (split_axis (Z r))\<rparr>))"

text \<open>The highest voxel position of a region, \<open>r.Z.pos(r.Z.size - 1)\<close>.\<close>

definition ztop :: "region \<Rightarrow> real" where
  "ztop r = pos (Z r) (size_ax (Z r) - 1)"

text \<open>The pixels under a region: rows \<open>Y.min ..< Y.min + Y.size\<close>, columns likewise.\<close>

definition in_block :: "region \<Rightarrow> nat \<times> nat \<Rightarrow> bool" where
  "in_block r p \<longleftrightarrow>
     min_ax (Y r) \<le> fst p \<and> fst p < min_ax (Y r) + size_ax (Y r) \<and>
     min_ax (X r) \<le> snd p \<and> snd p < min_ax (X r) + size_ax (X r)"

subsection \<open>The evaluator\<close>

text \<open>
  \<open>Tree\<close> is not under src/, so what its calls return is a parameter: a record of
  response functions. Each response may depend on the activation stack, which is the
  list of boxes for which \<open>push\<close> was called and not yet popped (\<open>push\<close> uses the most
  recent interval evaluation). \<open>eval_Region\<close> gives the array returned by \<open>t->eval(r)\<close>
  by index, \<open>eval_Interval\<close> the result of \<open>t->eval(X, Y, Z)\<close> on three intervals,
  \<open>evalCore_Gradient\<close> the gradient computed for a point staged by \<open>setPoint\<close>.
  \<open>count_double\<close> and \<open>count_Gradient\<close> are \<open>Result::count<double>()\<close> and
  \<open>Result::count<Gradient>()\<close>.
\<close>

type_synonym box = "interval \<times> interval \<times> interval"

type_synonym point = "real \<times> real \<times> real"

record tree =
  eval_Region :: "box option list \<Rightarrow> region \<Rightarrow> nat \<Rightarrow> real"
  eval_Interval :: "box option list \<Rightarrow> box \<Rightarrow> interval"
  evalCore_Gradient :: "box option list \<Rightarrow> point \<Rightarrow> gradient"
  count_double :: nat
  count_Gradient :: nat

subsection \<open>The machine state\<close>

text \<open>
  A depth is a double that is either minus infinity (\<open>None\<close>, the lowest value of the
  order on options) or a voxel position. A normal is a 32-bit colour, or \<open>None\<close> when it
  was assembled from an undefined conversion. Images are indexed by (row, column); the
  bounds of the images are not modelled. The calls on the tree and the writes to the
  images are recorded, in order, in \<open>trace\<close>.
\<close>

type_synonym depth_image = "nat \<times> nat \<Rightarrow> real option"

type_synonym normal_image = "nat \<times> nat \<Rightarrow> 32 word option"

datatype event =
    AbortLoad bool
  | EvalRegion region
  | EvalInterval region
  | SetPoint nat point
  | EvalGradient nat
  | Push
  | Pop
  | DepthWrite "nat \<times> nat" real
  | DepthFill region real
  | NormWrite "nat \<times> nat" "32 word option"

datatype error = BufferOverflow | AssertionFailed | StackUnderflow

text \<open>
  \<open>depth\<close> and \<open>norm_img\<close> are the two images. \<open>index\<close>, \<open>norm_count\<close>, \<open>xs\<close> and \<open>ys\<close> are
  the locals of \<open>pixels\<close>; the source does not initialise the arrays \<open>xs\<close> and \<open>ys\<close>, so
  at the entry of \<open>pixels\<close> they hold whatever the state holds. \<open>points\<close> are the lanes of
  the tree that \<open>setPoint\<close> writes, \<open>active\<close> is its activation stack and \<open>recent\<close> the box
  of its most recent interval evaluation. \<open>clock\<close> counts the loads of the abort flag.
\<close>

record state =
  depth :: depth_image
  norm_img :: normal_image
  index :: nat
  norm_count :: nat
  xs :: "nat \<Rightarrow> nat"
  ys :: "nat \<Rightarrow> nat"
  points :: "nat \<Rightarrow> point"
  active :: "box option list"
  recent :: "box option"
  clock :: nat
  trace :: "event list"

definition emit :: "event \<Rightarrow> state \<Rightarrow> state" where
  "emit e s = s\<lparr>trace := trace s @ [e]\<rparr>"

subsection \<open>pixels\<close>

text \<open>
  A counted loop \<open>for (i = 0; i < n; ++i)\<close> whose body may fail: the bodies run in
  order on the state, and the first failure ends the loop.
\<close>

primrec fold_e :: "('a \<Rightarrow> 's \<Rightarrow> 'e + 's) \<Rightarrow> 'a list \<Rightarrow> 's \<Rightarrow> 'e + 's" where
  "fold_e f [] s = Inr s"
| "fold_e f (a # as) s = (case f a s of Inl e \<Rightarrow> Inl e | Inr s' \<Rightarrow> fold_e f as s')"

definition for_loop :: "nat \<Rightarrow> (nat \<Rightarrow> 's \<Rightarrow> 'e + 's) \<Rightarrow> 's \<Rightarrow> 'e + 's" where
  "for_loop n body s = fold_e body [0..<n] s"

text \<open>
  The lambda \<open>run\<close>: one gradient evaluation of the \<open>norm_count\<close> staged points, then
  the loop that packs each gradient into the normal image, then \<open>norm_count = 0\<close>.
\<close>

definition blit :: "tree \<Rightarrow> nat \<Rightarrow> state \<Rightarrow> state" where
  "blit t i s =
     emit (NormWrite (ys s i, xs s i) (pack (evalCore_Gradient t (active s) (points s i))))
       (s\<lparr>norm_img := (norm_img s)
            ((ys s i, xs s i) := pack (evalCore_Gradient t (active s) (points s i)))\<rparr>)"

definition run :: "tree \<Rightarrow> state \<Rightarrow> state" where
  "run t s =
     (fold (blit t) [0..<norm_count s] (emit (EvalGradient (norm_count s)) s))\<lparr>norm_count := 0\<rparr>"

text \<open>
  The statements under \<open>if (depth(...) < z)\<close>, entered with \<open>index\<close> already
  incremented. A store at or beyond \<open>NUM_POINTS\<close> is outside \<open>xs\<close>, \<open>ys\<close> and the lanes.
\<close>

definition hit :: "tree \<Rightarrow> region \<Rightarrow> nat \<Rightarrow> nat \<Rightarrow> nat \<Rightarrow> state \<Rightarrow> error + state" where
  "hit t r i j k s =
     (let p = (min_ax (Y r) + j, min_ax (X r) + i);
          z = pos (Z r) (size_ax (Z r) - k - 1);
          s1 = emit (DepthWrite p z) (s\<lparr>depth := (depth s)(p := Some z)\<rparr>);
          s2 = s1\<lparr>index := index s1 + (size_ax (Z r) - k - 1)\<rparr>;
          n = norm_count s2
      in if n < count_Gradient t then
           (let s3 = s2\<lparr>xs := (xs s2)(n := min_ax (X r) + i),
                        ys := (ys s2)(n := min_ax (Y r) + j)\<rparr>;
                q = (pos (X r) i, pos (Y r) j, pos (Z r) k);
                s4 = emit (SetPoint n q) (s3\<lparr>points := (points s3)(n := q), norm_count := n + 1\<rparr>)
            in Inr (if norm_count s4 = count_Gradient t then run t s4 else s4))
         else Inl BufferOverflow)"

text \<open>
  Modelled from the spec: the macro \<open>REGION_ITERATE_XYZ\<close> is not under src/. It is
  taken to be three nested counted loops, \<open>i\<close> over \<open>X.size\<close>, \<open>j\<close> over \<open>Y.size\<close> and,
  innermost, \<open>k\<close> over \<open>Z.size\<close>: the \<open>break\<close> of the source leaves the rest of a
  z-column. \<open>zloop\<close> is the innermost loop from \<open>k\<close> on.
\<close>

function zloop :: "tree \<Rightarrow> region \<Rightarrow> (nat \<Rightarrow> real) \<Rightarrow> nat \<Rightarrow> nat \<Rightarrow> nat \<Rightarrow> state \<Rightarrow> error + state" where
  "zloop t r out i j k s =
     (if k < size_ax (Z r) then
        (if out (index s) < 0 then
           (if depth s (min_ax (Y r) + j, min_ax (X r) + i)
                 < Some (pos (Z r) (size_ax (Z r) - k - 1))
            then hit t r i j k (s\<lparr>index := index s + 1\<rparr>)
            else zloop t r out i j (k + 1) (s\<lparr>index := index s + 1\<rparr>))
         else zloop t r out i j (k + 1) (s\<lparr>index := index s + 1\<rparr>))
      else Inr s)"
  by pat_completeness auto
termination
  by (relation "measure (\<lambda>(t, r, out, i, j, k, s). size_ax (Z r) - k)") auto

declare zloop.simps [simp del]

definition yloop :: "tree \<Rightarrow> region \<Rightarrow> (nat \<Rightarrow> real) \<Rightarrow> nat \<Rightarrow> state \<Rightarrow> error + state" where
  "yloop t r out i s = for_loop (size_ax (Y r)) (\<lambda>j. zloop t r out i j 0) s"

definition xloop :: "tree \<Rightarrow> region \<Rightarrow> (nat \<Rightarrow> real) \<Rightarrow> state \<Rightarrow> error + state" where
  "xloop t r out s = for_loop (size_ax (X r)) (\<lambda>i. yloop t r out i) s"

definition pixels :: "tree \<Rightarrow> region \<Rightarrow> state \<Rightarrow> error + state" where
  "pixels t r s =
     (case xloop t r (eval_Region t (active s) r)
             ((emit (EvalRegion r) s)\<lparr>index := 0, norm_count := 0\<rparr>) of
        Inl e \<Rightarrow> Inl e
      | Inr s' \<Rightarrow> Inr (if 0 < norm_count s' then run t s' else s'))"

subsection \<open>recurse\<close>

definition box_of :: "region \<Rightarrow> box" where
  "box_of r = (interval (X r), interval (Y r), interval (Z r))"

text \<open>\<open>(block >= r.Z.pos(r.Z.size - 1)).all()\<close>\<close>

definition occluded :: "region \<Rightarrow> state \<Rightarrow> bool" where
  "occluded r s \<longleftrightarrow>
     list_all (\<lambda>y. list_all (\<lambda>x. Some (ztop r) \<le> depth s (y, x))
                       [min_ax (X r) ..< min_ax (X r) + size_ax (X r)])
       [min_ax (Y r) ..< min_ax (Y r) + size_ax (Y r)]"

text \<open>\<open>block = block.max(r.Z.pos(r.Z.size - 1))\<close>\<close>

definition fill_depth :: "region \<Rightarrow> real \<Rightarrow> depth_image \<Rightarrow> depth_image" where
  "fill_depth r z d = (\<lambda>p. if in_block r p then max (d p) (Some z) else d p)"

definition fill :: "region \<Rightarrow> state \<Rightarrow> state" where
  "fill r s = emit (DepthFill r (ztop r)) (s\<lparr>depth := fill_depth r (ztop r) (depth s)\<rparr>)"

text \<open>
  Modelled from the spec: \<open>Tree::push\<close> and \<open>Tree::pop\<close> are not under src/. \<open>push\<close>
  deactivates using the most recent interval evaluation, \<open>pop\<close> restores the state
  before the matching \<open>push\<close>; a \<open>pop\<close> without a \<open>push\<close> is an error.
\<close>

definition push :: "state \<Rightarrow> state" where
  "push s = emit Push (s\<lparr>active := recent s # active s\<rparr>)"

definition pop :: "state \<Rightarrow> error + state" where
  "pop s = (case active s of [] \<Rightarrow> Inl StackUnderflow | b # bs \<Rightarrow> Inr (emit Pop (s\<lparr>active := bs\<rparr>)))"

definition load_abort :: "(nat \<Rightarrow> bool) \<Rightarrow> state \<Rightarrow> state" where
  "load_abort abort s = emit (AbortLoad (abort (clock s))) (s\<lparr>clock := clock s + 1\<rparr>)"

definition eval_interval :: "region \<Rightarrow> state \<Rightarrow> state" where
  "eval_interval r s = emit (EvalInterval r) (s\<lparr>recent := Some (box_of r)\<rparr>)"

lemma split_axis_sizes:
  assumes "1 < size_ax a"
  shows "0 < size_ax (fst (split_axis a))" "size_ax (fst (split_axis a)) < size_ax a"
    "0 < size_ax (snd (split_axis a))" "size_ax (snd (split_axis a)) < size_ax a"
  using assms by (auto simp: split_axis_def)

lemma voxels_split:
  assumes "canSplit r" "0 < voxels r"
  shows "voxels (fst (split r)) < voxels r" "voxels (snd (split r)) < voxels r"
  using assms split_axis_sizes[of "X r"] split_axis_sizes[of "Y r"] split_axis_sizes[of "Z r"]
  by (auto simp: canSplit_def split_def voxels_def)

text \<open>
  The flag is read once, at the entry of each call: \<open>abort n\<close> is what the \<open>n\<close>-th load
  returns.
\<close>

function recurse :: "tree \<Rightarrow> (nat \<Rightarrow> bool) \<Rightarrow> region \<Rightarrow> state \<Rightarrow> error + state" where
  "recurse t abort r s =
     (if abort (clock s) then Inr (load_abort abort s)
      else if occluded r (load_abort abort s) then Inr (load_abort abort s)
      else if voxels r \<le> count_double t then pixels t r (load_abort abort s)
      else if upper (eval_Interval t (active s) (box_of r)) < 0
        then Inr (fill r (eval_interval r (load_abort abort s)))
      else if lower (eval_Interval t (active s) (box_of r)) \<le> 0 then
        (if canSplit r then
           (case recurse t abort (snd (split r)) (push (eval_interval r (load_abort abort s))) of
              Inl e \<Rightarrow> Inl e
            | Inr s' \<Rightarrow>
                (case recurse t abort (fst (split r)) s' of
                   Inl e \<Rightarrow> Inl e
                 | Inr s'' \<Rightarrow> pop s''))
         else Inl AssertionFailed)
      else Inr (eval_interval r (load_abort abort s)))"
  by pat_completeness auto
termination
  by (relation "measure (\<lambda>(t, abort, r, s). voxels r)") (auto intro: voxels_split)

declare recurse.simps [simp del]

subsection \<open>Render\<close>

text \<open>
  The state at entry gives the tree; its images stand for the freshly allocated,
  uninitialised arrays, which \<open>fill\<close> overwrites.
\<close>

definition clip_norm :: "region \<Rightarrow> state \<Rightarrow> state" where
  "clip_norm r s =
     s\<lparr>norm_img := (\<lambda>p. if depth s p = Some (ztop r) then Some 0xffff7f7f else norm_img s p)\<rparr>"

definition Render :: "tree \<Rightarrow> region \<Rightarrow> (nat \<Rightarrow> bool) \<Rightarrow> bool \<Rightarrow> state \<Rightarrow> error + state" where
  "Render t r abort clip s =
     (case recurse t abort r (s\<lparr>depth := (\<lambda>p. None), norm_img := (\<lambda>p. Some 0)\<rparr>) of
        Inl e \<Rightarrow> Inl e
      | Inr s' \<Rightarrow> Inr (if clip then clip_norm r s' else s'))"

section \<open>Notions used to state the properties\<close>

subsection \<open>Packed colours as numbers\<close>

text \<open>
  The value of a packed colour, with the alpha byte highest and the x channel lowest.
  \<open>normal_round\<close> follows the words of the specification (each channel rounded to the
  nearest integer); \<open>normal_trunc\<close> is the same formula with the channel truncated, which
  is what the conversion of the code computes.
\<close>

definition azyx :: "int \<Rightarrow> int \<Rightarrow> int \<Rightarrow> int \<Rightarrow> int" where
  "azyx a z y x = a * 2 ^ 24 + z * 2 ^ 16 + y * 2 ^ 8 + x"



definition channel_trunc :: "real \<Rightarrow> real \<Rightarrow> int" where
  "channel_trunc c l = \<lfloor>255 * (c / (2 * l) + 1 / 2)\<rfloor>"

definition normal_trunc :: "gradient \<Rightarrow> int" where
  "normal_trunc g =
     azyx 255 (channel_trunc (dz g) (len g)) (channel_trunc (dy g) (len g))
       (channel_trunc (dx g) (len g))"

subsection \<open>Replaying a trace\<close>

text \<open>
  The effect of a recorded event on the depth image and on the normal image. The
  images of a state are the replay of the writes recorded in its trace; \<open>mono_from d tr\<close>
  says that no event of \<open>tr\<close>, replayed from \<open>d\<close>, lowers a depth.
\<close>

fun apply_depth :: "event \<Rightarrow> depth_image \<Rightarrow> depth_image" where
  "apply_depth (DepthWrite p z) d = d(p := Some z)"
| "apply_depth (DepthFill r z) d = fill_depth r z d"
| "apply_depth e d = d"

fun apply_norm :: "event \<Rightarrow> normal_image \<Rightarrow> normal_image" where
  "apply_norm (NormWrite p v) n = n(p := v)"
| "apply_norm e n = n"

definition replay_depth :: "event list \<Rightarrow> depth_image \<Rightarrow> depth_image" where
  "replay_depth tr d = fold apply_depth tr d"

definition replay_norm :: "event list \<Rightarrow> normal_image \<Rightarrow> normal_image" where
  "replay_norm tr n = fold apply_norm tr n"

fun mono_from :: "depth_image \<Rightarrow> event list \<Rightarrow> bool" where
  "mono_from d [] \<longleftrightarrow> True"
| "mono_from d (e # tr) \<longleftrightarrow> d \<le> apply_depth e d \<and> mono_from (apply_depth e d) tr"

text \<open>
  \<open>steps s s' tr\<close>: the state \<open>s'\<close> is \<open>s\<close> after the events \<open>tr\<close>. \<open>pixel_event n\<close> holds of the
  events that \<open>pixels\<close> may record, with every staging slot below \<open>n\<close> and every gradient
  evaluation of between one and \<open>n\<close> points. \<open>pix_rel\<close> is what one call of \<open>pixels\<close>, or a
  part of it, does to a state: it leaves the tree and the clock alone.
\<close>

definition steps :: "state \<Rightarrow> state \<Rightarrow> event list \<Rightarrow> bool" where
  "steps s s' tr \<longleftrightarrow>
     trace s' = trace s @ tr \<and> depth s' = replay_depth tr (depth s) \<and>
     norm_img s' = replay_norm tr (norm_img s)"

fun pixel_event :: "nat \<Rightarrow> event \<Rightarrow> bool" where
  "pixel_event n (EvalRegion r) \<longleftrightarrow> True"
| "pixel_event n (DepthWrite p z) \<longleftrightarrow> True"
| "pixel_event n (SetPoint i q) \<longleftrightarrow> i < n"
| "pixel_event n (EvalGradient m) \<longleftrightarrow> 0 < m \<and> m \<le> n"
| "pixel_event n (NormWrite p v) \<longleftrightarrow> True"
| "pixel_event n e \<longleftrightarrow> False"

definition frame :: "state \<Rightarrow> state \<Rightarrow> bool" where
  "frame s s' \<longleftrightarrow> active s' = active s \<and> recent s' = recent s \<and> clock s' = clock s"

definition pix_rel :: "nat \<Rightarrow> state \<Rightarrow> state \<Rightarrow> bool" where
  "pix_rel n s s' \<longleftrightarrow>
     (\<exists>tr. steps s s' tr \<and> list_all (pixel_event n) tr \<and> mono_from (depth s) tr) \<and> frame s s'"

subsection \<open>The branches of \<open>recurse\<close>\<close>

text \<open>
  A call is interior when it passes the three early exits (flag, occlusion, leaf); it
  then evaluates one interval, which either is negative, or is positive, or straddles
  zero.
\<close>

definition interior :: "tree \<Rightarrow> (nat \<Rightarrow> bool) \<Rightarrow> region \<Rightarrow> state \<Rightarrow> bool" where
  "interior t abort r s \<longleftrightarrow>
     \<not> abort (clock s) \<and> \<not> occluded r (load_abort abort s) \<and> count_double t < voxels r"

definition straddles :: "tree \<Rightarrow> region \<Rightarrow> state \<Rightarrow> bool" where
  "straddles t r s \<longleftrightarrow>
     \<not> upper (eval_Interval t (active s) (box_of r)) < 0 \<and>
     lower (eval_Interval t (active s) (box_of r)) \<le> 0"

definition splits :: "tree \<Rightarrow> (nat \<Rightarrow> bool) \<Rightarrow> region \<Rightarrow> state \<Rightarrow> bool" where
  "splits t abort r s \<longleftrightarrow> interior t abort r s \<and> straddles t r s \<and> canSplit r"

text \<open>
  The events of a whole call, and the nesting of \<open>Push\<close> and \<open>Pop\<close>: \<open>balance tr d\<close> is the
  stack depth after \<open>tr\<close> from depth \<open>d\<close>, and \<open>None\<close> when a \<open>Pop\<close> finds the stack empty.
\<close>

fun rec_event :: "nat \<Rightarrow> event \<Rightarrow> bool" where
  "rec_event n (SetPoint i q) \<longleftrightarrow> i < n"
| "rec_event n (EvalGradient m) \<longleftrightarrow> 0 < m \<and> m \<le> n"
| "rec_event n e \<longleftrightarrow> True"

fun balance :: "event list \<Rightarrow> nat \<Rightarrow> nat option" where
  "balance [] d = Some d"
| "balance (Push # tr) d = balance tr (Suc d)"
| "balance (Pop # tr) d = (case d of 0 \<Rightarrow> None | Suc d' \<Rightarrow> balance tr d')"
| "balance (e # tr) d = balance tr d"

definition nested :: "event list \<Rightarrow> bool" where
  "nested tr \<longleftrightarrow> (\<forall>d. balance tr d = Some d)"

definition run_rel :: "nat \<Rightarrow> state \<Rightarrow> state \<Rightarrow> event list \<Rightarrow> bool" where
  "run_rel n s s' tr \<longleftrightarrow> steps s s' tr \<and> mono_from (depth s) tr \<and> list_all (rec_event n) tr"

subsection \<open>Concrete inputs\<close>

text \<open>
  A region of one voxel, a graph that is negative everywhere with the gradient
  \<open>(1, 0, 0)\<close> and batches of 256, and a state with empty images and an empty stack.
\<close>

definition unit_axis :: axis where
  "unit_axis = \<lparr>interval = \<lparr>lower = - 1, upper = 1\<rparr>, min_ax = 0, size_ax = 1\<rparr>"

definition unit_region :: region where
  "unit_region = \<lparr>X = unit_axis, Y = unit_axis, Z = unit_axis\<rparr>"

definition solid_tree :: tree where
  "solid_tree =
     \<lparr>eval_Region = (\<lambda>st r i. - 1),
      eval_Interval = (\<lambda>st b. \<lparr>lower = - 1, upper = - 1\<rparr>),
      evalCore_Gradient = (\<lambda>st q. \<lparr>dx = 1, dy = 0, dz = 0\<rparr>),
      count_double = 256, count_Gradient = 256\<rparr>"

definition blank_state :: state where
  "blank_state =
     \<lparr>depth = (\<lambda>p. None), norm_img = (\<lambda>p. Some 0), index = 0, norm_count = 0,
      xs = (\<lambda>i. 0), ys = (\<lambda>i. 0), points = (\<lambda>i. (0, 0, 0)), active = [], recent = None,
      clock = 0, trace = []\<rparr>"

subsection \<open>The shape of the trace of a call\<close>

text \<open>
  \<open>call_trace abort n c tr c'\<close>: \<open>tr\<close> is a possible trace of a call of \<open>recurse\<close> that starts
  with the clock at \<open>c\<close> and ends with the clock at \<open>c'\<close>. Every call loads the flag first
  and exactly once; a split is the trace of the upper half, then of the lower half,
  between a \<open>Push\<close> and a \<open>Pop\<close>.
\<close>

inductive call_trace :: "(nat \<Rightarrow> bool) \<Rightarrow> nat \<Rightarrow> nat \<Rightarrow> event list \<Rightarrow> nat \<Rightarrow> bool"
  for abort :: "nat \<Rightarrow> bool" and n :: nat where
  ct_stop: "call_trace abort n c [AbortLoad (abort c)] (Suc c)"
| ct_leaf: "\<not> abort c \<Longrightarrow> list_all (pixel_event n) tr \<Longrightarrow>
     call_trace abort n c (AbortLoad False # tr) (Suc c)"
| ct_fill: "\<not> abort c \<Longrightarrow> call_trace abort n c [AbortLoad False, EvalInterval r, DepthFill r z] (Suc c)"
| ct_skip: "\<not> abort c \<Longrightarrow> call_trace abort n c [AbortLoad False, EvalInterval r] (Suc c)"
| ct_split: "\<not> abort c \<Longrightarrow> call_trace abort n (Suc c) tr2 c2 \<Longrightarrow> call_trace abort n c2 tr1 c3 \<Longrightarrow>
     call_trace abort n c (AbortLoad False # EvalInterval r # Push # tr2 @ tr1 @ [Pop]) c3"

subsection \<open>Cancellation\<close>






subsection \<open>Clipping and fills\<close>


definition slab_region :: region where
  "slab_region =
     \<lparr>X = \<lparr>interval = \<lparr>lower = - 1, upper = 1\<rparr>, min_ax = 0, size_ax = 2\<rparr>,
      Y = \<lparr>interval = \<lparr>lower = - 1, upper = 1\<rparr>, min_ax = 0, size_ax = 1\<rparr>,
      Z = \<lparr>interval = \<lparr>lower = - 1, upper = 0\<rparr>, min_ax = 0, size_ax = 200\<rparr>\<rparr>"

definition half_seen :: state where
  "half_seen = blank_state\<lparr>depth := (\<lambda>p. None)((0, 0) := Some (1 / 2))\<rparr>"

fun is_fill_over :: "nat \<times> nat \<Rightarrow> event \<Rightarrow> bool" where
  "is_fill_over p (DepthFill r z) \<longleftrightarrow> in_block r p"
| "is_fill_over p e \<longleftrightarrow> False"

fun is_write_at :: "nat \<times> nat \<Rightarrow> event \<Rightarrow> bool" where
  "is_write_at p (DepthWrite q z) \<longleftrightarrow> q = p"
| "is_write_at p e \<longleftrightarrow> False"

definition fill_only :: "event list \<Rightarrow> nat \<times> nat \<Rightarrow> bool" where
  "fill_only tr p \<longleftrightarrow> list_ex (is_fill_over p) tr \<and> \<not> list_ex (is_write_at p) tr"

subsection \<open>Two runs\<close>

text \<open>
  Two states have the same images, the same staged points, and two results are the
  same error or related states.
\<close>

definition same_images :: "state \<Rightarrow> state \<Rightarrow> bool" where
  "same_images a b \<longleftrightarrow> depth a = depth b \<and> norm_img a = norm_img b \<and> active a = active b"

definition same_staging :: "state \<Rightarrow> state \<Rightarrow> bool" where
  "same_staging a b \<longleftrightarrow>
     same_images a b \<and> index a = index b \<and> norm_count a = norm_count b \<and>
     (\<forall>i < norm_count a. xs a i = xs b i \<and> ys a i = ys b i \<and> points a i = points b i)"

definition same_result :: "(state \<Rightarrow> state \<Rightarrow> bool) \<Rightarrow> error + state \<Rightarrow> error + state \<Rightarrow> bool" where
  "same_result R x y \<longleftrightarrow>
     (case x of
        Inl e \<Rightarrow> y = Inl e
      | Inr a \<Rightarrow> (case y of Inl e \<Rightarrow> False | Inr b \<Rightarrow> R a b))"

subsection \<open>Exhaustive evaluation\<close>









section \<open>Lemmas\<close>

subsection \<open>Packing\<close>

text \<open>
  On a gradient of non-zero length each channel is an integer between 0 and 255 and the
  packed word has the value \<open>normal_trunc\<close>; on a zero gradient the quotient is not a
  number and the packed word is undefined.
\<close>

lemma len_nonneg: "0 \<le> len g"
  by (simp add: len_def)

lemma len_zero_iff: "len g = 0 \<longleftrightarrow> dx g = 0 \<and> dy g = 0 \<and> dz g = 0"
proof -
  have "(dx g)\<^sup>2 + (dy g)\<^sup>2 + (dz g)\<^sup>2 = 0 \<longleftrightarrow> dx g = 0 \<and> dy g = 0 \<and> dz g = 0"
    by (smt (verit) zero_le_power2 power2_eq_iff_nonneg power_zero_numeral zero_eq_power2)
  then show ?thesis by (simp add: len_def)
qed

lemma len_ge_abs: "\<bar>dx g\<bar> \<le> len g" "\<bar>dy g\<bar> \<le> len g" "\<bar>dz g\<bar> \<le> len g"
  unfolding len_def by (rule real_le_rsqrt, simp)+

lemma channel_value:
  assumes "0 < l" "\<bar>c\<bar> \<le> l"
  shows "channel c l = Some (word_of_int (channel_trunc c l))"
    and "0 \<le> channel_trunc c l" and "channel_trunc c l \<le> 255"
proof -
  let ?v = "255 * (c / (2 * l) + 1 / 2)"
  have "- (1 / 2) \<le> c / (2 * l)" "c / (2 * l) \<le> 1 / 2"
    using assms by (simp_all add: field_simps abs_le_iff)
  then have v: "0 \<le> ?v" "?v \<le> 255" by simp_all
  then show b: "0 \<le> channel_trunc c l" "channel_trunc c l \<le> 255"
    unfolding channel_trunc_def by (simp_all add: floor_le_iff le_floor_iff)
  have "trunc ?v = channel_trunc c l"
    using v by (simp add: trunc_def channel_trunc_def)
  moreover have "fdiv c (2 * l) = Finite (c / (2 * l))" using assms by simp
  ultimately show "channel c l = Some (word_of_int (channel_trunc c l))"
    using b by (simp add: channel_def)
qed

lemma or_bytes:
  fixes a x y z :: "32 word"
  shows "push_bit 24 a OR push_bit 16 (take_bit 8 z) OR push_bit 8 (take_bit 8 y) OR take_bit 8 x
       = push_bit 24 a + (push_bit 16 (take_bit 8 z) + (push_bit 8 (take_bit 8 y) + take_bit 8 x))"
proof -
  have 1: "push_bit 8 (take_bit 8 y) + take_bit 8 x = push_bit 8 (take_bit 8 y) OR take_bit 8 x"
    by (rule disjunctive_add_eq_or, rule bit_eqI) (auto simp: bit_simps)
  have 2: "push_bit 16 (take_bit 8 z) + (push_bit 8 (take_bit 8 y) OR take_bit 8 x)
      = push_bit 16 (take_bit 8 z) OR (push_bit 8 (take_bit 8 y) OR take_bit 8 x)"
    by (rule disjunctive_add_eq_or, rule bit_eqI) (auto simp: bit_simps)
  have 3: "push_bit 24 a + (push_bit 16 (take_bit 8 z) OR (push_bit 8 (take_bit 8 y) OR take_bit 8 x))
      = push_bit 24 a OR (push_bit 16 (take_bit 8 z) OR (push_bit 8 (take_bit 8 y) OR take_bit 8 x))"
    by (rule disjunctive_add_eq_or, rule bit_eqI) (auto simp: bit_simps)
  show ?thesis by (simp only: 1 2 3 or.assoc)
qed

lemma byte_word:
  assumes "0 \<le> c" "c \<le> 255"
  shows "take_bit 8 (word_of_int c :: 32 word) = word_of_int c"
  using assms by (simp add: take_bit_of_int take_bit_int_eq_self)

lemma compose_word:
  assumes "0 \<le> x" "x \<le> 255" "0 \<le> y" "y \<le> 255" "0 \<le> z" "z \<le> 255"
  shows "push_bit 24 (0xff :: 32 word) OR push_bit 16 (word_of_int z) OR push_bit 8 (word_of_int y) OR word_of_int x
       = word_of_int (azyx 255 z y x)"
    and "uint (word_of_int (azyx 255 z y x) :: 32 word) = azyx 255 z y x"
proof -
  have b: "take_bit 8 (word_of_int x :: 32 word) = word_of_int x"
    "take_bit 8 (word_of_int y :: 32 word) = word_of_int y"
    "take_bit 8 (word_of_int z :: 32 word) = word_of_int z"
    using assms by (simp_all only: byte_word)
  have "push_bit 24 (0xff :: 32 word) OR push_bit 16 (word_of_int z) OR push_bit 8 (word_of_int y) OR word_of_int x
      = push_bit 24 0xff + (push_bit 16 (word_of_int z) + (push_bit 8 (word_of_int y) + word_of_int x))"
    using or_bytes[of "0xff" "word_of_int z" "word_of_int y" "word_of_int x"]
    by (simp only: b)
  also have "\<dots> = word_of_int (azyx 255 z y x)"
    by (simp add: azyx_def push_bit_eq_mult)
  finally show "push_bit 24 (0xff :: 32 word) OR push_bit 16 (word_of_int z) OR push_bit 8 (word_of_int y) OR word_of_int x
       = word_of_int (azyx 255 z y x)" .
  have "0 \<le> azyx 255 z y x" "azyx 255 z y x < 2 ^ 32"
    using assms by (simp_all add: azyx_def)
  then show "uint (word_of_int (azyx 255 z y x) :: 32 word) = azyx 255 z y x"
    by (simp add: uint_word_of_int_eq take_bit_int_eq_self)
qed

lemma pack_value:
  assumes "len g \<noteq> 0"
  shows "pack g = Some (word_of_int (normal_trunc g))"
    and "uint (word_of_int (normal_trunc g) :: 32 word) = normal_trunc g"
    and "0 \<le> channel_trunc (dx g) (len g) \<and> channel_trunc (dx g) (len g) \<le> 255"
    and "0 \<le> channel_trunc (dy g) (len g) \<and> channel_trunc (dy g) (len g) \<le> 255"
    and "0 \<le> channel_trunc (dz g) (len g) \<and> channel_trunc (dz g) (len g) \<le> 255"
proof -
  have l: "0 < len g" using assms len_nonneg[of g] by simp
  note cx = channel_value[OF l len_ge_abs(1)]
  note cy = channel_value[OF l len_ge_abs(2)]
  note cz = channel_value[OF l len_ge_abs(3)]
  show "0 \<le> channel_trunc (dx g) (len g) \<and> channel_trunc (dx g) (len g) \<le> 255"
    "0 \<le> channel_trunc (dy g) (len g) \<and> channel_trunc (dy g) (len g) \<le> 255"
    "0 \<le> channel_trunc (dz g) (len g) \<and> channel_trunc (dz g) (len g) \<le> 255"
    using cx(2,3) cy(2,3) cz(2,3) by simp_all
  note w = compose_word[OF cx(2,3) cy(2,3) cz(2,3)]
  show "pack g = Some (word_of_int (normal_trunc g))"
    unfolding pack_def normal_trunc_def by (simp only: cx(1) cy(1) cz(1) w(1) prod.case option.case)
  show "uint (word_of_int (normal_trunc g) :: 32 word) = normal_trunc g"
    unfolding normal_trunc_def by (rule w(2))
qed

lemma pack_zero:
  assumes "len g = 0"
  shows "pack g = None" "fdiv (dx g) (2 * len g) = NaN"
  using assms len_zero_iff[of g] by (simp_all add: pack_def channel_def)

subsection \<open>Traces and their replay\<close>

lemma replay_depth_simps:
  "replay_depth [] d = d"
  "replay_depth (e # tr) d = replay_depth tr (apply_depth e d)"
  "replay_depth (a @ b) d = replay_depth b (replay_depth a d)"
  by (simp_all add: replay_depth_def)

lemma replay_norm_simps:
  "replay_norm [] n = n"
  "replay_norm (e # tr) n = replay_norm tr (apply_norm e n)"
  "replay_norm (a @ b) n = replay_norm b (replay_norm a n)"
  by (simp_all add: replay_norm_def)

lemma mono_from_append:
  "mono_from d (a @ b) \<longleftrightarrow> mono_from d a \<and> mono_from (replay_depth a d) b"
  by (induction a arbitrary: d) (simp_all add: replay_depth_simps)

lemma mono_from_le: "mono_from d tr \<Longrightarrow> d \<le> replay_depth tr d"
proof (induction tr arbitrary: d)
  case Nil
  then show ?case by (simp add: replay_depth_simps)
next
  case (Cons e tr)
  from Cons.prems have a: "d \<le> apply_depth e d" and b: "mono_from (apply_depth e d) tr"
    by simp_all
  have "apply_depth e d \<le> replay_depth tr (apply_depth e d)"
    using b by (rule Cons.IH)
  with a have "d \<le> replay_depth tr (apply_depth e d)"
    by (rule order_trans)
  then show ?case by (simp only: replay_depth_simps)
qed

lemma steps_refl: "steps s s []"
  by (simp add: steps_def replay_depth_simps replay_norm_simps)

lemma steps_trans: "steps s s1 a \<Longrightarrow> steps s1 s2 b \<Longrightarrow> steps s s2 (a @ b)"
  by (simp add: steps_def replay_depth_simps replay_norm_simps)

lemma frame_refl: "frame s s"
  by (simp add: frame_def)

lemma frame_trans: "frame s s1 \<Longrightarrow> frame s1 s2 \<Longrightarrow> frame s s2"
  by (simp add: frame_def)

lemma pix_rel_refl: "pix_rel n s s"
  unfolding pix_rel_def using steps_refl[of s] frame_refl[of s]
  by (intro conjI exI[of _ "[]"]) simp_all

lemma pix_rel_trans:
  assumes "pix_rel n s s1" "pix_rel n s1 s2"
  shows "pix_rel n s s2"
proof -
  from assms(1) obtain a where a: "steps s s1 a" "list_all (pixel_event n) a"
    "mono_from (depth s) a" and f1: "frame s s1"
    unfolding pix_rel_def by blast
  from assms(2) obtain b where b: "steps s1 s2 b" "list_all (pixel_event n) b"
    "mono_from (depth s1) b" and f2: "frame s1 s2"
    unfolding pix_rel_def by blast
  have d1: "depth s1 = replay_depth a (depth s)"
    using a(1) by (simp add: steps_def)
  have "steps s s2 (a @ b)"
    using a(1) b(1) by (rule steps_trans)
  moreover have "list_all (pixel_event n) (a @ b)"
    using a(2) b(2) by simp
  moreover have "mono_from (depth s) (a @ b)"
    using a(3) b(3) d1 by (simp add: mono_from_append)
  moreover have "frame s s2"
    using f1 f2 by (rule frame_trans)
  ultimately show ?thesis
    unfolding pix_rel_def by blast
qed

lemma pix_rel_event:
  assumes "trace s' = trace s @ [e]" "depth s' = apply_depth e (depth s)"
    "norm_img s' = apply_norm e (norm_img s)" "pixel_event n e"
    "depth s \<le> apply_depth e (depth s)" "frame s s'"
  shows "pix_rel n s s'"
  unfolding pix_rel_def steps_def using assms
  by (intro conjI exI[of _ "[e]"]) (simp_all add: replay_depth_simps replay_norm_simps)

lemma pix_rel_silent:
  assumes "trace s' = trace s" "depth s' = depth s" "norm_img s' = norm_img s" "frame s s'"
  shows "pix_rel n s s'"
  unfolding pix_rel_def steps_def using assms
  by (intro conjI exI[of _ "[]"]) (simp_all add: replay_depth_simps replay_norm_simps)

subsection \<open>The loops of \<open>pixels\<close>\<close>

text \<open>
  A counted loop is proved with an invariant (\<open>for_loop_rule\<close>). Each of \<open>run\<close>, \<open>hit\<close>, the
  three loops and \<open>pixels\<close> returns, never overflows the staging arrays when it starts
  with a free slot, and is related to its start by \<open>pix_rel\<close>.
\<close>

lemma fold_e_upt:
  assumes "I a s" "a \<le> b"
    and "\<And>i s. a \<le> i \<Longrightarrow> i < b \<Longrightarrow> I i s \<Longrightarrow> \<exists>s'. f i s = Inr s' \<and> I (Suc i) s'"
  shows "\<exists>s'. fold_e f [a..<b] s = Inr s' \<and> I b s'"
  using assms
proof (induction "b - a" arbitrary: a s)
  case 0
  then show ?case by simp
next
  case (Suc m)
  then have ab: "a < b" by simp
  from Suc.prems(3)[of a s] Suc.prems(1) ab obtain s1 where s1: "f a s = Inr s1" "I (Suc a) s1"
    by auto
  have "m = b - Suc a" using Suc.hyps(2) by simp
  from Suc.hyps(1)[OF this s1(2)] ab Suc.prems(3)
  obtain s' where "fold_e f [Suc a..<b] s1 = Inr s'" "I b s'"
    by (metis Suc_leD Suc_leI)
  then show ?case
    using ab s1(1) by (simp add: upt_conv_Cons)
qed

lemma for_loop_rule:
  assumes "I 0 s"
    and "\<And>i s. i < n \<Longrightarrow> I i s \<Longrightarrow> \<exists>s'. body i s = Inr s' \<and> I (Suc i) s'"
  shows "\<exists>s'. for_loop n body s = Inr s' \<and> I n s'"
  unfolding for_loop_def using assms by (intro fold_e_upt) simp_all

lemma fold_upt_rule:
  assumes "I a s" "a \<le> b" and "\<And>i s. a \<le> i \<Longrightarrow> i < b \<Longrightarrow> I i s \<Longrightarrow> I (Suc i) (f i s)"
  shows "I b (fold f [a..<b] s)"
  using assms
proof (induction "b - a" arbitrary: a s)
  case 0
  then show ?case by simp
next
  case (Suc m)
  then have ab: "a < b" by simp
  have 1: "I (Suc a) (f a s)" using Suc.prems(3)[of a s] Suc.prems(1) ab by simp
  have "m = b - Suc a" using Suc.hyps(2) by simp
  from Suc.hyps(1)[OF this 1] ab Suc.prems(3)
  have "I b (fold f [Suc a..<b] (f a s))"
    by (metis Suc_leD Suc_leI)
  then show ?case
    using ab by (simp add: upt_conv_Cons)
qed

lemma blit_pix_rel: "pix_rel n s (blit t i s)"
  by (rule pix_rel_event[where e = "NormWrite (ys s i, xs s i)
        (pack (evalCore_Gradient t (active s) (points s i)))"])
     (simp_all add: blit_def emit_def frame_def)

lemma blit_fields:
  "norm_count (blit t i s) = norm_count s" "index (blit t i s) = index s"
  "xs (blit t i s) = xs s" "ys (blit t i s) = ys s" "points (blit t i s) = points s"
  "active (blit t i s) = active s"
  by (simp_all add: blit_def emit_def)

lemma run_pix_rel:
  assumes "0 < norm_count s" "norm_count s \<le> n"
  shows "pix_rel n s (run t s)" "norm_count (run t s) = 0" "index (run t s) = index s"
proof -
  let ?s0 = "emit (EvalGradient (norm_count s)) s"
  let ?I = "\<lambda>(i::nat) u. pix_rel n s u \<and> index u = index s"
  have 0: "pix_rel n s ?s0"
    using assms
    by (intro pix_rel_event[where e = "EvalGradient (norm_count s)"])
       (simp_all add: emit_def frame_def)
  have "?I (norm_count ?s0) (fold (blit t) [0..<norm_count ?s0] ?s0)"
  proof (rule fold_upt_rule[where I = ?I])
    show "?I 0 ?s0" using 0 by (simp add: emit_def)
  next
    fix i u assume "?I i u"
    then show "?I (Suc i) (blit t i u)"
      using pix_rel_trans[OF _ blit_pix_rel[of n u t i]] by (simp add: blit_fields)
  qed simp
  then have 1: "pix_rel n s (fold (blit t) [0..<norm_count s] ?s0)"
    "index (fold (blit t) [0..<norm_count s] ?s0) = index s"
    by (simp_all add: emit_def)
  show "pix_rel n s (run t s)"
    unfolding run_def
    by (rule pix_rel_trans[OF 1(1)]) (rule pix_rel_silent, simp_all add: frame_def)
  show "norm_count (run t s) = 0" by (simp add: run_def)
  show "index (run t s) = index s" using 1(2) by (simp add: run_def)
qed

lemma hit_pix_rel:
  assumes "norm_count s < count_Gradient t"
    and "depth s (min_ax (Y r) + j, min_ax (X r) + i) < Some (pos (Z r) (size_ax (Z r) - k - 1))"
  shows "\<exists>s'. hit t r i j k s = Inr s' \<and> pix_rel (count_Gradient t) s s' \<and>
           norm_count s' < count_Gradient t \<and>
           index s' = index s + (size_ax (Z r) - k - 1)"
proof -
  let ?n = "count_Gradient t"
  let ?p = "(min_ax (Y r) + j, min_ax (X r) + i)"
  let ?z = "pos (Z r) (size_ax (Z r) - k - 1)"
  let ?q = "(pos (X r) i, pos (Y r) j, pos (Z r) k)"
  define s1 where "s1 = emit (DepthWrite ?p ?z) (s\<lparr>depth := (depth s)(?p := Some ?z)\<rparr>)"
  define s3 where "s3 = s1\<lparr>index := index s1 + (size_ax (Z r) - k - 1),
      xs := (xs s1)(norm_count s := min_ax (X r) + i),
      ys := (ys s1)(norm_count s := min_ax (Y r) + j)\<rparr>"
  define s4 where "s4 = emit (SetPoint (norm_count s) ?q)
      (s3\<lparr>points := (points s3)(norm_count s := ?q), norm_count := norm_count s + 1\<rparr>)"
  have le: "depth s \<le> (depth s)(?p := Some ?z)"
    using assms(2) by (auto simp: le_fun_def)
  have r1: "pix_rel ?n s s1"
    using le unfolding s1_def
    by (intro pix_rel_event[where e = "DepthWrite ?p ?z"]) (simp_all add: emit_def frame_def)
  have r3: "pix_rel ?n s1 s3"
    unfolding s3_def by (rule pix_rel_silent) (simp_all add: frame_def)
  have r4: "pix_rel ?n s3 s4"
    using assms(1) unfolding s4_def
    by (intro pix_rel_event[where e = "SetPoint (norm_count s) ?q"]) (simp_all add: emit_def frame_def)
  have r: "pix_rel ?n s s4"
    using r1 r3 r4 by (blast intro: pix_rel_trans)
  have nc: "norm_count s4 = norm_count s + 1"
    by (simp add: s4_def emit_def)
  have ix: "index s4 = index s + (size_ax (Z r) - k - 1)"
    by (simp add: s4_def s3_def s1_def emit_def)
  have eq: "hit t r i j k s = Inr (if norm_count s4 = ?n then run t s4 else s4)"
    using assms(1) by (simp add: hit_def Let_def emit_def s4_def s3_def s1_def)
  show ?thesis
  proof (cases "norm_count s4 = ?n")
    case True
    have pos: "0 < norm_count s4" "norm_count s4 \<le> ?n"
      using nc True by linarith+
    have "pix_rel ?n s (run t s4)"
      by (rule pix_rel_trans[OF r run_pix_rel(1)[OF pos]])
    moreover have "norm_count (run t s4) < ?n"
      using assms(1) run_pix_rel(2)[OF pos, of t] by linarith
    moreover have "index (run t s4) = index s + (size_ax (Z r) - k - 1)"
      using run_pix_rel(3)[OF pos, of t] ix by linarith
    moreover have "hit t r i j k s = Inr (run t s4)"
      by (simp add: eq True)
    ultimately show ?thesis by blast
  next
    case False
    have "norm_count s4 < ?n" using False nc assms(1) by linarith
    moreover have "hit t r i j k s = Inr s4"
      by (simp add: eq False)
    ultimately show ?thesis using r ix by blast
  qed
qed

lemma zloop_pix_rel:
  assumes "norm_count s < count_Gradient t" "k \<le> size_ax (Z r)"
  shows "\<exists>s'. zloop t r out i j k s = Inr s' \<and> pix_rel (count_Gradient t) s s' \<and>
           norm_count s' < count_Gradient t \<and> index s' = index s + (size_ax (Z r) - k)"
  using assms
proof (induction t r out i j k s rule: zloop.induct)
  case (1 t r out i j k s)
  let ?n = "count_Gradient t"
  define s1 where "s1 = s\<lparr>index := index s + 1\<rparr>"
  have s1: "pix_rel ?n s s1" "norm_count s1 = norm_count s" "index s1 = index s + 1"
    "depth s1 = depth s"
    unfolding s1_def by (auto intro: pix_rel_silent simp: frame_def)
  show ?case
  proof (cases "k < size_ax (Z r)")
    case False
    have eq: "zloop t r out i j k s = Inr s"
      by (rule trans[OF zloop.simps]) (simp add: False)
    show ?thesis
      unfolding eq by (rule exI[of _ s]) (use False "1.prems"(1) in \<open>simp add: pix_rel_refl\<close>)
  next
    case True
    show ?thesis
    proof (cases "out (index s) < 0 \<and> depth s (min_ax (Y r) + j, min_ax (X r) + i)
                    < Some (pos (Z r) (size_ax (Z r) - k - 1))")
      case h: True
      have eq: "zloop t r out i j k s = hit t r i j k s1"
        unfolding s1_def by (rule trans[OF zloop.simps]) (use True h in simp)
      have "\<exists>s'. hit t r i j k s1 = Inr s' \<and> pix_rel ?n s1 s' \<and>
           norm_count s' < ?n \<and> index s' = index s1 + (size_ax (Z r) - k - 1)"
        by (rule hit_pix_rel) (use s1(2,4) h "1.prems" in simp_all)
      then obtain s' where s': "hit t r i j k s1 = Inr s'" "pix_rel ?n s1 s'"
        "norm_count s' < ?n" "index s' = index s1 + (size_ax (Z r) - k - 1)"
        by blast
      have "pix_rel ?n s s'" using s1(1) s'(2) by (rule pix_rel_trans)
      moreover have "index s' = index s + (size_ax (Z r) - k)"
        using s'(4) s1(3) True by linarith
      ultimately show ?thesis
        unfolding eq using s'(1,3) by blast
    next
      case h: False
      have eq: "zloop t r out i j k s = zloop t r out i j (k + 1) s1"
        unfolding s1_def by (rule trans[OF zloop.simps]) (use True h in auto)
      have "\<exists>s'. zloop t r out i j (k + 1) s1 = Inr s' \<and> pix_rel ?n s1 s' \<and>
           norm_count s' < ?n \<and> index s' = index s1 + (size_ax (Z r) - (k + 1))"
      proof (cases "out (index s) < 0")
        case True
        with h have "\<not> depth s (min_ax (Y r) + j, min_ax (X r) + i)
                    < Some (pos (Z r) (size_ax (Z r) - k - 1))" by simp
        from "1.IH"(1)[OF \<open>k < size_ax (Z r)\<close> True this] "1.prems" \<open>k < size_ax (Z r)\<close>
        show ?thesis unfolding s1_def by simp
      next
        case False
        from "1.IH"(2)[OF \<open>k < size_ax (Z r)\<close> False] "1.prems" \<open>k < size_ax (Z r)\<close>
        show ?thesis unfolding s1_def by simp
      qed
      then obtain s' where s': "zloop t r out i j (k + 1) s1 = Inr s'" "pix_rel ?n s1 s'"
        "norm_count s' < ?n" "index s' = index s1 + (size_ax (Z r) - (k + 1))"
        by blast
      have "pix_rel ?n s s'" using s1(1) s'(2) by (rule pix_rel_trans)
      moreover have "index s' = index s + (size_ax (Z r) - k)"
        using s'(4) s1(3) True by linarith
      ultimately show ?thesis
        unfolding eq using s'(1,3) by blast
    qed
  qed
qed

lemma yloop_pix_rel:
  assumes "norm_count s < count_Gradient t"
  shows "\<exists>s'. yloop t r out i s = Inr s' \<and> pix_rel (count_Gradient t) s s' \<and>
           norm_count s' < count_Gradient t \<and>
           index s' = index s + size_ax (Y r) * size_ax (Z r)"
proof -
  let ?n = "count_Gradient t"
  let ?I = "\<lambda>j u. pix_rel ?n s u \<and> norm_count u < ?n \<and> index u = index s + j * size_ax (Z r)"
  have "\<exists>s'. for_loop (size_ax (Y r)) (\<lambda>j. zloop t r out i j 0) s = Inr s' \<and> ?I (size_ax (Y r)) s'"
  proof (rule for_loop_rule[where I = ?I])
    show "?I 0 s" using assms pix_rel_refl by simp
  next
    fix j u assume "j < size_ax (Y r)" and u: "?I j u"
    then have "\<exists>s'. zloop t r out i j 0 u = Inr s' \<and> pix_rel ?n u s' \<and>
           norm_count s' < ?n \<and> index s' = index u + (size_ax (Z r) - 0)"
      by (intro zloop_pix_rel) simp_all
    then obtain s' where s': "zloop t r out i j 0 u = Inr s'" "pix_rel ?n u s'"
      "norm_count s' < ?n" "index s' = index u + (size_ax (Z r) - 0)" by blast
    have "pix_rel ?n s s'" using u s'(2) by (blast intro: pix_rel_trans)
    moreover have "index s' = index s + Suc j * size_ax (Z r)"
      using s'(4) u by simp
    ultimately show "\<exists>s'. zloop t r out i j 0 u = Inr s' \<and> ?I (Suc j) s'"
      using s'(1,3) by blast
  qed
  then show ?thesis unfolding yloop_def by simp
qed

lemma xloop_pix_rel:
  assumes "norm_count s < count_Gradient t"
  shows "\<exists>s'. xloop t r out s = Inr s' \<and> pix_rel (count_Gradient t) s s' \<and>
           norm_count s' < count_Gradient t \<and> index s' = index s + voxels r"
proof -
  let ?n = "count_Gradient t"
  let ?I = "\<lambda>i u. pix_rel ?n s u \<and> norm_count u < ?n \<and>
              index u = index s + i * (size_ax (Y r) * size_ax (Z r))"
  have "\<exists>s'. for_loop (size_ax (X r)) (\<lambda>i. yloop t r out i) s = Inr s' \<and> ?I (size_ax (X r)) s'"
  proof (rule for_loop_rule[where I = ?I])
    show "?I 0 s" using assms pix_rel_refl by simp
  next
    fix i u assume "i < size_ax (X r)" and u: "?I i u"
    then have "\<exists>s'. yloop t r out i u = Inr s' \<and> pix_rel ?n u s' \<and>
           norm_count s' < ?n \<and> index s' = index u + size_ax (Y r) * size_ax (Z r)"
      by (intro yloop_pix_rel) simp_all
    then obtain s' where s': "yloop t r out i u = Inr s'" "pix_rel ?n u s'"
      "norm_count s' < ?n" "index s' = index u + size_ax (Y r) * size_ax (Z r)" by blast
    have "pix_rel ?n s s'" using u s'(2) by (blast intro: pix_rel_trans)
    moreover have "index s' = index s + Suc i * (size_ax (Y r) * size_ax (Z r))"
      using s'(4) u by simp
    ultimately show "\<exists>s'. yloop t r out i u = Inr s' \<and> ?I (Suc i) s'"
      using s'(1,3) by blast
  qed
  then show ?thesis unfolding xloop_def voxels_def by (simp add: mult.assoc)
qed

lemma pixels_pix_rel:
  assumes "0 < count_Gradient t"
  shows "\<exists>s'. pixels t r s = Inr s' \<and> pix_rel (count_Gradient t) s s' \<and> norm_count s' = 0"
proof -
  let ?n = "count_Gradient t"
  define s0 where "s0 = (emit (EvalRegion r) s)\<lparr>index := 0, norm_count := 0\<rparr>"
  have r0: "pix_rel ?n s s0"
    unfolding s0_def
    by (rule pix_rel_event[where e = "EvalRegion r"]) (simp_all add: emit_def frame_def)
  have n0: "norm_count s0 < ?n" using assms by (simp add: s0_def)
  from xloop_pix_rel[OF n0, of r "eval_Region t (active s) r"]
  obtain s1 where s1: "xloop t r (eval_Region t (active s) r) s0 = Inr s1" "pix_rel ?n s0 s1"
    "norm_count s1 < ?n" by blast
  have r1: "pix_rel ?n s s1" using r0 s1(2) by (rule pix_rel_trans)
  have eq: "pixels t r s = Inr (if 0 < norm_count s1 then run t s1 else s1)"
    using s1(1) by (simp add: pixels_def s0_def)
  show ?thesis
  proof (cases "0 < norm_count s1")
    case True
    have le: "norm_count s1 \<le> ?n" using s1(3) by simp
    have "pix_rel ?n s (run t s1)"
      by (rule pix_rel_trans[OF r1 run_pix_rel(1)[OF True le]])
    moreover have "pixels t r s = Inr (run t s1)" by (simp add: eq True)
    ultimately show ?thesis using run_pix_rel(2)[OF True le, of t] by blast
  next
    case False
    then have "pixels t r s = Inr s1" "norm_count s1 = 0" by (simp_all add: eq)
    then show ?thesis using r1 by blast
  qed
qed

subsection \<open>The calls of \<open>recurse\<close>\<close>

text \<open>
  One equation for each branch of \<open>recurse\<close>, and the induction over its calls.
\<close>

lemma recurse_abort:
  "abort (clock s) \<Longrightarrow> recurse t abort r s = Inr (load_abort abort s)"
  by (rule trans[OF recurse.simps]) simp

lemma recurse_occluded:
  "\<not> abort (clock s) \<Longrightarrow> occluded r (load_abort abort s) \<Longrightarrow>
   recurse t abort r s = Inr (load_abort abort s)"
  by (rule trans[OF recurse.simps]) simp

lemma recurse_leaf:
  "\<not> abort (clock s) \<Longrightarrow> \<not> occluded r (load_abort abort s) \<Longrightarrow> voxels r \<le> count_double t \<Longrightarrow>
   recurse t abort r s = pixels t r (load_abort abort s)"
  by (rule trans[OF recurse.simps]) simp

lemma recurse_fill:
  "interior t abort r s \<Longrightarrow> upper (eval_Interval t (active s) (box_of r)) < 0 \<Longrightarrow>
   recurse t abort r s = Inr (fill r (eval_interval r (load_abort abort s)))"
  unfolding interior_def by (rule trans[OF recurse.simps]) simp

lemma recurse_skip:
  "interior t abort r s \<Longrightarrow> \<not> upper (eval_Interval t (active s) (box_of r)) < 0 \<Longrightarrow>
   \<not> lower (eval_Interval t (active s) (box_of r)) \<le> 0 \<Longrightarrow>
   recurse t abort r s = Inr (eval_interval r (load_abort abort s))"
  unfolding interior_def by (rule trans[OF recurse.simps]) simp

lemma recurse_nosplit:
  "interior t abort r s \<Longrightarrow> straddles t r s \<Longrightarrow> \<not> canSplit r \<Longrightarrow>
   recurse t abort r s = Inl AssertionFailed"
  unfolding interior_def straddles_def by (rule trans[OF recurse.simps]) simp

lemma recurse_split:
  "splits t abort r s \<Longrightarrow>
   recurse t abort r s =
     (case recurse t abort (snd (split r)) (push (eval_interval r (load_abort abort s))) of
        Inl e \<Rightarrow> Inl e
      | Inr s' \<Rightarrow>
          (case recurse t abort (fst (split r)) s' of
             Inl e \<Rightarrow> Inl e
           | Inr s'' \<Rightarrow> pop s''))"
  unfolding splits_def interior_def straddles_def by (rule trans[OF recurse.simps]) simp

lemma recurse_induct2:
  assumes "\<And>t abort r s.
     (splits t abort r s \<Longrightarrow> P t abort (snd (split r)) (push (eval_interval r (load_abort abort s)))) \<Longrightarrow>
     (\<And>x. splits t abort r s \<Longrightarrow>
        recurse t abort (snd (split r)) (push (eval_interval r (load_abort abort s))) = Inr x \<Longrightarrow>
        P t abort (fst (split r)) x) \<Longrightarrow> P t abort r s"
  shows "P t abort r s"
proof (induction t abort r s rule: recurse.induct)
  case (1 t abort r s)
  show ?case
  proof (rule assms)
    assume "splits t abort r s"
    then show "P t abort (snd (split r)) (push (eval_interval r (load_abort abort s)))"
      unfolding splits_def interior_def straddles_def by (intro 1) simp_all
  next
    fix x assume "splits t abort r s"
      and "recurse t abort (snd (split r)) (push (eval_interval r (load_abort abort s))) = Inr x"
    then show "P t abort (fst (split r)) x"
      unfolding splits_def interior_def straddles_def by (intro 1) simp_all
  qed
qed

lemma canSplit_voxels: "1 < voxels r \<Longrightarrow> canSplit r"
proof (rule ccontr)
  assume v: "1 < voxels r" and "\<not> canSplit r"
  then have "size_ax (X r) \<le> 1" "size_ax (Y r) \<le> 1" "size_ax (Z r) \<le> 1"
    by (simp_all add: canSplit_def not_less)
  then have "size_ax (X r) * size_ax (Y r) * size_ax (Z r) \<le> 1 * 1 * 1"
    by (intro mult_le_mono)
  with v show False by (simp add: voxels_def)
qed

lemma pixel_event_rec: "pixel_event n e \<Longrightarrow> rec_event n e"
  by (cases e) simp_all

lemma balance_append:
  "balance (a @ b) d = (case balance a d of None \<Rightarrow> None | Some d' \<Rightarrow> balance b d')"
  by (induction a d rule: balance.induct) (simp_all split: nat.splits)

lemma balance_pixel: "list_all (pixel_event n) tr \<Longrightarrow> balance tr d = Some d"
proof (induction tr)
  case Nil
  then show ?case by simp
next
  case (Cons e tr)
  then show ?case by (cases e) simp_all
qed

lemma nested_append: "nested a \<Longrightarrow> nested b \<Longrightarrow> nested (a @ b)"
  by (simp add: nested_def balance_append)

lemma nested_pixel: "list_all (pixel_event n) tr \<Longrightarrow> nested tr"
  by (simp add: nested_def balance_pixel)

lemma nested_push_pop: "nested a \<Longrightarrow> nested (Push # a @ [Pop])"
  by (simp add: nested_def balance_append)

lemma run_rel_trans: "run_rel n s s1 a \<Longrightarrow> run_rel n s1 s2 b \<Longrightarrow> run_rel n s s2 (a @ b)"
  unfolding run_rel_def
  by (auto simp: mono_from_append steps_def replay_depth_simps replay_norm_simps)

lemma run_rel_event:
  assumes "trace s' = trace s @ [e]" "depth s' = apply_depth e (depth s)"
    "norm_img s' = apply_norm e (norm_img s)" "rec_event n e"
    "depth s \<le> apply_depth e (depth s)"
  shows "run_rel n s s' [e]"
  unfolding run_rel_def steps_def using assms
  by (simp add: replay_depth_simps replay_norm_simps)

lemma pix_rel_run_rel:
  assumes "pix_rel n s s'"
  shows "\<exists>tr. run_rel n s s' tr \<and> list_all (pixel_event n) tr"
proof -
  from assms obtain tr where tr: "steps s s' tr" "list_all (pixel_event n) tr"
    "mono_from (depth s) tr"
    unfolding pix_rel_def by blast
  have "list_all (rec_event n) tr"
    using tr(2) by (auto simp: list_all_iff intro: pixel_event_rec)
  then show ?thesis unfolding run_rel_def using tr by blast
qed

lemma fill_depth_ge: "d \<le> fill_depth r z d"
  by (simp add: le_fun_def fill_depth_def)

lemma load_abort_rel:
  "run_rel n s (load_abort abort s) [AbortLoad (abort (clock s))]"
  by (rule run_rel_event) (simp_all add: load_abort_def emit_def)

lemma eval_interval_rel: "run_rel n s (eval_interval r s) [EvalInterval r]"
  by (rule run_rel_event) (simp_all add: eval_interval_def emit_def)

lemma fill_rel: "run_rel n s (fill r s) [DepthFill r (ztop r)]"
  by (rule run_rel_event) (simp_all add: fill_def emit_def fill_depth_ge)

lemma push_rel: "run_rel n s (push s) [Push]"
  by (rule run_rel_event) (simp_all add: push_def emit_def)

lemma pop_rel:
  assumes "active s = b # bs"
  shows "pop s = Inr (emit Pop (s\<lparr>active := bs\<rparr>))"
    "run_rel n s (emit Pop (s\<lparr>active := bs\<rparr>)) [Pop]"
  using assms by (simp add: pop_def) (rule run_rel_event, simp_all add: emit_def)

lemma prim_fields:
  "active (load_abort abort s) = active s" "clock (load_abort abort s) = clock s + 1"
  "depth (load_abort abort s) = depth s" "norm_img (load_abort abort s) = norm_img s"
  "active (eval_interval r s) = active s" "clock (eval_interval r s) = clock s"
  "recent (eval_interval r s) = Some (box_of r)"
  "depth (eval_interval r s) = depth s" "norm_img (eval_interval r s) = norm_img s"
  "active (fill r s) = active s" "clock (fill r s) = clock s"
  "norm_img (fill r s) = norm_img s" "depth (fill r s) = fill_depth r (ztop r) (depth s)"
  "active (push s) = recent s # active s" "clock (push s) = clock s"
  "depth (push s) = depth s" "norm_img (push s) = norm_img s"
  by (simp_all add: load_abort_def eval_interval_def fill_def push_def emit_def)

lemma occluded_load_abort: "occluded r (load_abort abort s) = occluded r s"
  by (simp add: occluded_def prim_fields)

text \<open>
  Every call returns, with the stack of the tree as it found it; its trace has the
  shape \<open>call_trace\<close>, and its images are the replay of that trace.
\<close>

lemma recurse_run:
  assumes np: "0 < count_Gradient t" and w: "0 < count_double t"
  shows "\<exists>s' tr. recurse t abort r s = Inr s' \<and> run_rel (count_Gradient t) s s' tr \<and>
           call_trace abort (count_Gradient t) (clock s) tr (clock s') \<and> active s' = active s"
  using assms
proof (induction t abort r s rule: recurse_induct2)
  case (1 t abort r s)
  note np = "1.prems"(1) and w = "1.prems"(2)
  let ?n = "count_Gradient t"
  let ?A = "AbortLoad (abort (clock s))"
  define s0 where "s0 = load_abort abort s"
  have r0: "run_rel ?n s s0 [?A]"
    unfolding s0_def by (rule load_abort_rel)
  have f0: "active s0 = active s" "clock s0 = Suc (clock s)"
    unfolding s0_def by (simp_all add: prim_fields)
  consider (stop) "abort (clock s) \<or> occluded r s0"
    | (leaf) "\<not> abort (clock s)" "\<not> occluded r s0" "voxels r \<le> count_double t"
    | (inner) "interior t abort r s"
    unfolding interior_def s0_def by fastforce
  then show ?case
  proof cases
    case stop
    then have "recurse t abort r s = Inr s0"
      unfolding s0_def using recurse_abort recurse_occluded by blast
    moreover have "call_trace abort ?n (clock s) [?A] (clock s0)"
      unfolding f0 by (rule ct_stop)
    ultimately show ?thesis using r0 f0(1) by blast
  next
    case leaf
    have eq: "recurse t abort r s = pixels t r s0"
      unfolding s0_def using leaf by (intro recurse_leaf) (simp_all add: s0_def)
    from pixels_pix_rel[OF np, of r s0] obtain s' where s': "pixels t r s0 = Inr s'"
      "pix_rel ?n s0 s'" by blast
    from pix_rel_run_rel[OF s'(2)] obtain tr where tr: "run_rel ?n s0 s' tr"
      "list_all (pixel_event ?n) tr" by blast
    have fr: "active s' = active s" "clock s' = Suc (clock s)"
      using s'(2) f0 by (simp_all add: pix_rel_def frame_def)
    have "run_rel ?n s s' ([?A] @ tr)"
      using r0 tr(1) by (rule run_rel_trans)
    then have "run_rel ?n s s' (AbortLoad False # tr)"
      using leaf(1) by simp
    moreover have "call_trace abort ?n (clock s) (AbortLoad False # tr) (clock s')"
      unfolding fr using leaf(1) tr(2) by (rule ct_leaf)
    ultimately show ?thesis unfolding eq using s'(1) fr(1) by blast
  next
    case inner
    then have na: "\<not> abort (clock s)" by (simp add: interior_def)
    define s1 where "s1 = eval_interval r s0"
    have "run_rel ?n s s1 ([?A] @ [EvalInterval r])"
      unfolding s1_def using r0 eval_interval_rel by (rule run_rel_trans)
    then have r1: "run_rel ?n s s1 [AbortLoad False, EvalInterval r]"
      using na by simp
    have f1: "active s1 = active s" "clock s1 = Suc (clock s)" "recent s1 = Some (box_of r)"
      unfolding s1_def using f0 by (simp_all add: prim_fields)
    consider (fill) "upper (eval_Interval t (active s) (box_of r)) < 0"
      | (skip) "\<not> upper (eval_Interval t (active s) (box_of r)) < 0"
          "\<not> lower (eval_Interval t (active s) (box_of r)) \<le> 0"
      | (split) "straddles t r s"
      unfolding straddles_def by fastforce
    then show ?thesis
    proof cases
      case fill
      have eq: "recurse t abort r s = Inr (fill r s1)"
        unfolding s1_def s0_def using inner fill by (rule recurse_fill)
      have "run_rel ?n s (fill r s1) ([AbortLoad False, EvalInterval r] @ [DepthFill r (ztop r)])"
        using r1 fill_rel by (rule run_rel_trans)
      then have "run_rel ?n s (fill r s1) [AbortLoad False, EvalInterval r, DepthFill r (ztop r)]"
        by simp
      moreover have "active (fill r s1) = active s" "clock (fill r s1) = Suc (clock s)"
        using f1 by (simp_all add: prim_fields)
      moreover have "call_trace abort ?n (clock s)
          [AbortLoad False, EvalInterval r, DepthFill r (ztop r)] (Suc (clock s))"
        using na by (rule ct_fill)
      ultimately show ?thesis unfolding eq by (metis (no_types))
    next
      case skip
      have eq: "recurse t abort r s = Inr s1"
        unfolding s1_def s0_def using inner skip by (rule recurse_skip)
      have "call_trace abort ?n (clock s) [AbortLoad False, EvalInterval r] (clock s1)"
        unfolding f1 using na by (rule ct_skip)
      then show ?thesis unfolding eq using r1 f1(1) by blast
    next
      case split
      have "1 < voxels r" using inner w unfolding interior_def by linarith
      then have cs: "canSplit r" by (rule canSplit_voxels)
      have sp: "splits t abort r s" unfolding splits_def using inner split cs by simp
      define s2 where "s2 = push s1"
      have "run_rel ?n s s2 ([AbortLoad False, EvalInterval r] @ [Push])"
        unfolding s2_def using r1 push_rel by (rule run_rel_trans)
      then have r2: "run_rel ?n s s2 [AbortLoad False, EvalInterval r, Push]" by simp
      have f2: "active s2 = Some (box_of r) # active s" "clock s2 = Suc (clock s)"
        unfolding s2_def using f1 by (simp_all add: prim_fields)
      from "1.IH"(1)[OF sp np w] obtain s3 tr3 where s3:
        "recurse t abort (snd (split r)) s2 = Inr s3" "run_rel ?n s2 s3 tr3"
        "call_trace abort ?n (clock s2) tr3 (clock s3)" "active s3 = active s2"
        unfolding s2_def s1_def s0_def by blast
      from "1.IH"(2)[OF sp s3(1)[unfolded s2_def s1_def s0_def] np w] obtain s4 tr4 where s4:
        "recurse t abort (fst (split r)) s3 = Inr s4" "run_rel ?n s3 s4 tr4"
        "call_trace abort ?n (clock s3) tr4 (clock s4)" "active s4 = active s3"
        by blast
      define s5 where "s5 = emit Pop (s4\<lparr>active := active s\<rparr>)"
      have a4: "active s4 = Some (box_of r) # active s"
        using s4(4) s3(4) f2(1) by simp
      have p: "pop s4 = Inr s5" "run_rel ?n s4 s5 [Pop]"
        unfolding s5_def using pop_rel[OF a4] by simp_all
      have eq: "recurse t abort r s = Inr s5"
        using recurse_split[OF sp] s3(1) s4(1) p(1)
        unfolding s2_def s1_def s0_def by simp
      have "run_rel ?n s s5 ((([AbortLoad False, EvalInterval r, Push] @ tr3) @ tr4) @ [Pop])"
        using r2 s3(2) s4(2) p(2) by (blast intro: run_rel_trans)
      then have "run_rel ?n s s5 (AbortLoad False # EvalInterval r # Push # tr3 @ tr4 @ [Pop])"
        by simp
      moreover have "call_trace abort ?n (clock s)
          (AbortLoad False # EvalInterval r # Push # tr3 @ tr4 @ [Pop]) (clock s5)"
      proof (rule ct_split[where abort = abort and c = "clock s"])
        show "\<not> abort (clock s)" by (rule na)
        show "call_trace abort ?n (Suc (clock s)) tr3 (clock s3)"
          using s3(3) by (simp only: f2(2))
        show "call_trace abort ?n (clock s3) tr4 (clock s5)"
          using s4(3) by (simp add: s5_def emit_def)
      qed
      moreover have "active s5 = active s" by (simp add: s5_def emit_def)
      ultimately show ?thesis unfolding eq by blast
    qed
  qed
qed

subsection \<open>Consequences of the shape of a trace\<close>

lemma ct_nested: "call_trace abort n c tr c' \<Longrightarrow> nested tr"
proof (induction rule: call_trace.induct)
  case (ct_stop c)
  then show ?case by (simp add: nested_def)
next
  case (ct_leaf c tr)
  then show ?case using nested_pixel[of n tr] by (simp add: nested_def)
next
  case (ct_fill c r z)
  then show ?case by (simp add: nested_def)
next
  case (ct_skip c r)
  then show ?case by (simp add: nested_def)
next
  case (ct_split c tr2 c2 tr1 c3 r)
  have "nested (tr2 @ tr1)" using ct_split.IH by (rule nested_append)
  then have "nested (Push # (tr2 @ tr1) @ [Pop])" by (rule nested_push_pop)
  then show ?case by (simp add: nested_def)
qed

lemma ct_clock: "call_trace abort n c tr c' \<Longrightarrow> c < c'"
  by (induction rule: call_trace.induct) simp_all

lemma ct_rec_events: "call_trace abort n c tr c' \<Longrightarrow> list_all (rec_event n) tr"
proof (induction rule: call_trace.induct)
  case (ct_leaf c tr)
  then show ?case by (auto simp: list_all_iff intro: pixel_event_rec)
qed simp_all









lemma recurse_summary:
  assumes np: "0 < count_Gradient t" and w: "0 < count_double t"
  shows "\<exists>s' tr. recurse t abort r s = Inr s' \<and> run_rel (count_Gradient t) s s' tr \<and>
           nested tr \<and> active s' = active s \<and> clock s < clock s'"
proof -
  from recurse_run[OF assms, of abort r s] obtain s' tr where
    s': "recurse t abort r s = Inr s'" "run_rel (count_Gradient t) s s' tr"
      "call_trace abort (count_Gradient t) (clock s) tr (clock s')" "active s' = active s"
    by blast
  have "nested tr" "clock s < clock s'"
    using s'(3) by (rule ct_nested, rule ct_clock)
  then show ?thesis using s'(1,2,4) by blast
qed

lemma interior_load: "interior t abort r s \<Longrightarrow> \<not> abort (clock s)"
  by (simp add: interior_def)

lemma slab_interior: "interior solid_tree (\<lambda>n. False) slab_region half_seen"
  by (simp add: interior_def occluded_def load_abort_def emit_def half_seen_def blank_state_def
      slab_region_def solid_tree_def voxels_def ztop_def pos_def)

lemma render_unit:
  "Render solid_tree unit_region (\<lambda>n. False) clip blank_state = Inr s' \<Longrightarrow>
   depth s' (0, 0) = Some 0 \<and>
   norm_img s' (0, 0) = (if clip then Some 0xffff7f7f else Some 0xff7f7fff) \<and>
   trace s' = [AbortLoad False, EvalRegion unit_region, DepthWrite (0, 0) 0,
     SetPoint 0 (0, 0, 0), EvalGradient 1, NormWrite (0, 0) (Some 0xff7f7fff)]"
  by (auto simp add: Render_def recurse.simps load_abort_def emit_def occluded_def ztop_def pos_def
      voxels_def pixels_def xloop_def yloop_def for_loop_def zloop.simps hit_def Let_def run_def
      blit_def pack_def len_def channel_def trunc_def clip_norm_def solid_tree_def unit_region_def
      unit_axis_def blank_state_def)

subsection \<open>Two runs side by side\<close>

text \<open>
  Each function of the renderer, run on two states with the same images and the same
  staged points, gives the same result.
\<close>

lemma same_result_simps:
  "same_result R (Inl e) y \<longleftrightarrow> y = Inl e"
  "same_result R (Inr a) (Inr b) \<longleftrightarrow> R a b"
  "same_result R (Inr a) (Inl e) \<longleftrightarrow> False"
  by (simp_all add: same_result_def)

lemma same_result_cases:
  assumes "same_result R x y"
  obtains (err) e where "x = Inl e" "y = Inl e"
  | (ok) a b where "x = Inr a" "y = Inr b" "R a b"
  using assms by (cases x; cases y) (simp_all add: same_result_def)

lemma same_result_mono:
  assumes "same_result R x y" "\<And>a b. R a b \<Longrightarrow> Q a b"
  shows "same_result Q x y"
  using assms(1) by (cases rule: same_result_cases) (simp_all add: same_result_simps assms(2))

lemma fold_upt_rel:
  assumes "R a s1 s2" "a \<le> b"
    and "\<And>i s1 s2. a \<le> i \<Longrightarrow> i < b \<Longrightarrow> R i s1 s2 \<Longrightarrow> R (Suc i) (f i s1) (g i s2)"
  shows "R b (fold f [a..<b] s1) (fold g [a..<b] s2)"
  using assms
proof (induction "b - a" arbitrary: a s1 s2)
  case 0
  then show ?case by simp
next
  case (Suc m)
  then have ab: "a < b" by simp
  have 1: "R (Suc a) (f a s1) (g a s2)" using Suc.prems(3)[of a s1 s2] Suc.prems(1) ab by simp
  have "m = b - Suc a" using Suc.hyps(2) by simp
  from Suc.hyps(1)[OF this 1] ab Suc.prems(3)
  have "R b (fold f [Suc a..<b] (f a s1)) (fold g [Suc a..<b] (g a s2))"
    by (metis Suc_leD Suc_leI)
  then show ?case
    using ab by (simp add: upt_conv_Cons)
qed

lemma fold_e_upt_rel:
  assumes "R a s1 s2" "a \<le> b"
    and "\<And>i s1 s2. a \<le> i \<Longrightarrow> i < b \<Longrightarrow> R i s1 s2 \<Longrightarrow>
           same_result (R (Suc i)) (f i s1) (g i s2)"
  shows "same_result (R b) (fold_e f [a..<b] s1) (fold_e g [a..<b] s2)"
  using assms
proof (induction "b - a" arbitrary: a s1 s2)
  case 0
  then show ?case by (simp add: same_result_simps)
next
  case (Suc m)
  then have ab: "a < b" by simp
  have 1: "same_result (R (Suc a)) (f a s1) (g a s2)"
    using Suc.prems(3)[of a s1 s2] Suc.prems(1) ab by simp
  have m: "m = b - Suc a" using Suc.hyps(2) by simp
  from 1 show ?case
  proof (cases rule: same_result_cases)
    case (err e)
    then show ?thesis using ab by (simp add: upt_conv_Cons same_result_simps)
  next
    case (ok u v)
    from Suc.hyps(1)[OF m ok(3)] ab Suc.prems(3)
    have "same_result (R b) (fold_e f [Suc a..<b] u) (fold_e g [Suc a..<b] v)"
      by (metis Suc_leD Suc_leI)
    then show ?thesis using ab ok(1,2) by (simp add: upt_conv_Cons)
  qed
qed

lemma for_loop_rel:
  assumes "R 0 s1 s2"
    and "\<And>i s1 s2. i < n \<Longrightarrow> R i s1 s2 \<Longrightarrow> same_result (R (Suc i)) (f i s1) (g i s2)"
  shows "same_result (R n) (for_loop n f s1) (for_loop n g s2)"
  unfolding for_loop_def using assms by (intro fold_e_upt_rel) simp_all

lemma blit_rel:
  assumes "same_staging a b" "i < norm_count a"
  shows "same_staging (blit t i a) (blit t i b)"
  using assms by (simp add: same_staging_def same_images_def blit_def emit_def)

lemma run_same:
  assumes "same_staging a b"
  shows "same_staging (run t a) (run t b)"
proof -
  let ?n = "norm_count a"
  define a0 where "a0 = emit (EvalGradient (norm_count a)) a"
  define b0 where "b0 = emit (EvalGradient (norm_count b)) b"
  have n: "norm_count b = ?n" using assms by (simp add: same_staging_def)
  have 0: "same_staging a0 b0"
    using assms by (simp add: same_staging_def same_images_def a0_def b0_def emit_def)
  have na: "norm_count a0 = ?n" by (simp add: a0_def emit_def)
  let ?R = "\<lambda>(i::nat) u v. same_staging u v \<and> norm_count u = ?n"
  have "?R ?n (fold (blit t) [0..<?n] a0) (fold (blit t) [0..<?n] b0)"
  proof (rule fold_upt_rel[where R = ?R])
    show "?R 0 a0 b0" using 0 na by simp
  next
    fix i u v assume "i < ?n" "?R i u v"
    then show "?R (Suc i) (blit t i u) (blit t i v)"
      using blit_rel[of u v i t] by (simp add: blit_fields)
  qed simp
  then have "same_staging (fold (blit t) [0..<?n] a0) (fold (blit t) [0..<?n] b0)" by simp
  then show ?thesis
    unfolding run_def n a0_def[symmetric] b0_def[symmetric, unfolded n]
    by (simp add: same_staging_def same_images_def)
qed

lemma hit_same:
  assumes "same_staging a b"
  shows "same_result same_staging (hit t r i j k a) (hit t r i j k b)"
proof (cases "norm_count a < count_Gradient t")
  case False
  then have "hit t r i j k a = Inl BufferOverflow" "hit t r i j k b = Inl BufferOverflow"
    using assms by (simp_all add: hit_def Let_def emit_def same_staging_def)
  then show ?thesis by (simp add: same_result_simps)
next
  case True
  let ?p = "(min_ax (Y r) + j, min_ax (X r) + i)"
  let ?z = "pos (Z r) (size_ax (Z r) - k - 1)"
  let ?q = "(pos (X r) i, pos (Y r) j, pos (Z r) k)"
  define step where "step = (\<lambda>s. emit (SetPoint (norm_count s) ?q)
      ((emit (DepthWrite ?p ?z) (s\<lparr>depth := (depth s)(?p := Some ?z)\<rparr>))
         \<lparr>index := index s + (size_ax (Z r) - k - 1),
          xs := (xs s)(norm_count s := min_ax (X r) + i),
          ys := (ys s)(norm_count s := min_ax (Y r) + j),
          points := (points s)(norm_count s := ?q), norm_count := norm_count s + 1\<rparr>))"
  have nb: "norm_count b < count_Gradient t" using True assms by (simp add: same_staging_def)
  have ea: "hit t r i j k a =
      Inr (if norm_count (step a) = count_Gradient t then run t (step a) else step a)"
    using True by (simp add: hit_def Let_def emit_def step_def)
  have eb: "hit t r i j k b =
      Inr (if norm_count (step b) = count_Gradient t then run t (step b) else step b)"
    using nb by (simp add: hit_def Let_def emit_def step_def)
  have s: "same_staging (step a) (step b)"
    using assms by (simp add: same_staging_def same_images_def step_def emit_def)
  then have n: "norm_count (step a) = norm_count (step b)" by (simp add: same_staging_def)
  show ?thesis
    unfolding ea eb using s run_same[OF s, of t] by (simp add: same_result_simps n)
qed

lemma zloop_same:
  assumes "same_staging a b"
  shows "same_result same_staging (zloop t r out i j k a) (zloop t r out i j k b)"
  using assms
proof (induction t r out i j k a arbitrary: b rule: zloop.induct)
  case (1 t r out i j k a)
  define a1 where "a1 = a\<lparr>index := index a + 1\<rparr>"
  define b1 where "b1 = b\<lparr>index := index b + 1\<rparr>"
  have s1: "same_staging a1 b1"
    using "1.prems" by (simp add: same_staging_def same_images_def a1_def b1_def)
  have ix: "index b = index a" and dp: "depth b = depth a"
    using "1.prems" by (simp_all add: same_staging_def same_images_def)
  show ?case
  proof (cases "k < size_ax (Z r)")
    case False
    then have "zloop t r out i j k a = Inr a" "zloop t r out i j k b = Inr b"
      by (simp_all add: zloop.simps)
    then show ?thesis using "1.prems" by (simp add: same_result_simps)
  next
    case True
    show ?thesis
    proof (cases "out (index a) < 0 \<and> depth a (min_ax (Y r) + j, min_ax (X r) + i)
                    < Some (pos (Z r) (size_ax (Z r) - k - 1))")
      case h: True
      have "zloop t r out i j k a = hit t r i j k a1" "zloop t r out i j k b = hit t r i j k b1"
        unfolding a1_def b1_def
        by (rule trans[OF zloop.simps], use True h ix dp in simp)+
      then show ?thesis using hit_same[OF s1] by simp
    next
      case h: False
      have e: "zloop t r out i j k a = zloop t r out i j (k + 1) a1"
        "zloop t r out i j k b = zloop t r out i j (k + 1) b1"
        unfolding a1_def b1_def
        by (rule trans[OF zloop.simps], use True h ix dp in auto)+
      have "same_result same_staging (zloop t r out i j (k + 1) a1) (zloop t r out i j (k + 1) b1)"
      proof (cases "out (index a) < 0")
        case o: True
        with h have "\<not> depth a (min_ax (Y r) + j, min_ax (X r) + i)
                    < Some (pos (Z r) (size_ax (Z r) - k - 1))" by simp
        from "1.IH"(1)[OF True o this, of b1] s1 show ?thesis by (simp add: a1_def)
      next
        case o: False
        from "1.IH"(2)[OF True o, of b1] s1 show ?thesis by (simp add: a1_def)
      qed
      then show ?thesis by (simp only: e)
    qed
  qed
qed

lemma yloop_same:
  assumes "same_staging a b"
  shows "same_result same_staging (yloop t r out i a) (yloop t r out i b)"
  unfolding yloop_def
  by (rule for_loop_rel[where R = "\<lambda>j. same_staging"]) (simp_all add: assms zloop_same)

lemma xloop_same:
  assumes "same_staging a b"
  shows "same_result same_staging (xloop t r out a) (xloop t r out b)"
  unfolding xloop_def
  by (rule for_loop_rel[where R = "\<lambda>j. same_staging"]) (simp_all add: assms yloop_same)

lemma pixels_same:
  assumes "same_images a b"
  shows "same_result same_images (pixels t r a) (pixels t r b)"
proof -
  define a0 where "a0 = (emit (EvalRegion r) a)\<lparr>index := 0, norm_count := 0\<rparr>"
  define b0 where "b0 = (emit (EvalRegion r) b)\<lparr>index := 0, norm_count := 0\<rparr>"
  have ac: "active b = active a" using assms by (simp add: same_images_def)
  have 0: "same_staging a0 b0"
    using assms by (simp add: same_staging_def same_images_def a0_def b0_def emit_def)
  have ea: "pixels t r a = (case xloop t r (eval_Region t (active a) r) a0 of
      Inl e \<Rightarrow> Inl e | Inr s' \<Rightarrow> Inr (if 0 < norm_count s' then run t s' else s'))"
    by (simp add: pixels_def a0_def)
  have eb: "pixels t r b = (case xloop t r (eval_Region t (active a) r) b0 of
      Inl e \<Rightarrow> Inl e | Inr s' \<Rightarrow> Inr (if 0 < norm_count s' then run t s' else s'))"
    by (simp add: pixels_def b0_def ac)
  from xloop_same[OF 0, of t r "eval_Region t (active a) r"] show ?thesis
  proof (cases rule: same_result_cases)
    case (err e)
    then show ?thesis unfolding ea eb by (simp add: same_result_simps)
  next
    case (ok u v)
    have n: "norm_count u = norm_count v" using ok(3) by (simp add: same_staging_def)
    have "same_staging (run t u) (run t v)" using ok(3) by (rule run_same)
    then show ?thesis
      unfolding ea eb using ok by (simp add: same_result_simps n same_staging_def)
  qed
qed

lemma occluded_same: "depth a = depth b \<Longrightarrow> occluded r a = occluded r b"
  by (simp add: occluded_def)

lemma recurse_same:
  assumes "\<forall>n. \<not> abort n" "same_images a b"
  shows "same_result same_images (recurse t abort r a) (recurse t abort r b)"
  using assms
proof (induction t abort r a arbitrary: b rule: recurse_induct2)
  case (1 t abort r a)
  note na = "1.prems"(1) and ab = "1.prems"(2)
  have d: "depth a = depth b" and ac: "active a = active b"
    using ab by (simp_all add: same_images_def)
  define a0 where "a0 = load_abort abort a"
  define b0 where "b0 = load_abort abort b"
  have s0: "same_images a0 b0"
    using ab by (simp add: same_images_def a0_def b0_def load_abort_def emit_def)
  have oc: "occluded r a0 = occluded r b0"
    unfolding a0_def b0_def occluded_load_abort using d by (rule occluded_same)
  have ii: "interior t abort r a = interior t abort r b"
    using oc na by (simp add: interior_def a0_def b0_def)
  consider (occ) "occluded r a0"
    | (leaf) "\<not> occluded r a0" "voxels r \<le> count_double t"
    | (inner) "interior t abort r a"
    unfolding interior_def a0_def using na by fastforce
  then show ?case
  proof cases
    case occ
    then have "recurse t abort r a = Inr a0" "recurse t abort r b = Inr b0"
      using na oc by (simp_all add: recurse_occluded a0_def b0_def)
    then show ?thesis using s0 by (simp add: same_result_simps)
  next
    case leaf
    then have "recurse t abort r a = pixels t r a0" "recurse t abort r b = pixels t r b0"
      using na oc by (simp_all add: recurse_leaf a0_def b0_def)
    then show ?thesis using pixels_same[OF s0] by simp
  next
    case inner
    then have ib: "interior t abort r b" using ii by simp
    define a1 where "a1 = eval_interval r a0"
    define b1 where "b1 = eval_interval r b0"
    have s1: "same_images a1 b1" "recent a1 = recent b1"
      using s0 by (simp_all add: same_images_def a1_def b1_def eval_interval_def emit_def)
    consider (fill) "upper (eval_Interval t (active a) (box_of r)) < 0"
      | (skip) "\<not> upper (eval_Interval t (active a) (box_of r)) < 0"
          "\<not> lower (eval_Interval t (active a) (box_of r)) \<le> 0"
      | (split) "straddles t r a" "canSplit r"
      | (nosplit) "straddles t r a" "\<not> canSplit r"
      unfolding straddles_def by fastforce
    then show ?thesis
    proof cases
      case fill
      then have "recurse t abort r a = Inr (fill r a1)" "recurse t abort r b = Inr (fill r b1)"
        using inner ib ac by (simp_all add: recurse_fill a1_def b1_def a0_def b0_def)
      moreover have "same_images (fill r a1) (fill r b1)"
        using s1 by (simp add: same_images_def fill_def emit_def)
      ultimately show ?thesis by (simp add: same_result_simps)
    next
      case skip
      then have "recurse t abort r a = Inr a1" "recurse t abort r b = Inr b1"
        using inner ib ac by (simp_all add: recurse_skip a1_def b1_def a0_def b0_def)
      then show ?thesis using s1 by (simp add: same_result_simps)
    next
      case nosplit
      have sb: "straddles t r b" using nosplit(1) ac by (simp add: straddles_def)
      have "recurse t abort r a = Inl AssertionFailed" "recurse t abort r b = Inl AssertionFailed"
        using inner ib nosplit sb by (simp_all add: recurse_nosplit)
      then show ?thesis by (simp add: same_result_simps)
    next
      case split
      have sb: "straddles t r b" using split(1) ac by (simp add: straddles_def)
      have spa: "splits t abort r a" and spb: "splits t abort r b"
        using inner ib split sb by (simp_all add: splits_def)
      define a2 where "a2 = push a1"
      define b2 where "b2 = push b1"
      have s2: "same_images a2 b2"
        using s1 by (simp add: same_images_def a2_def b2_def push_def emit_def)
      note ea = recurse_split[OF spa, folded a0_def a1_def a2_def]
      note eb = recurse_split[OF spb, folded b0_def b1_def b2_def]
      from "1.IH"(1)[OF spa na, folded a0_def a1_def a2_def, OF s2]
      show ?thesis
      proof (cases rule: same_result_cases)
        case (err e)
        then show ?thesis unfolding ea eb by (simp add: same_result_simps)
      next
        case (ok a3 b3)
        from "1.IH"(2)[OF spa ok(1)[unfolded a2_def a1_def a0_def] na ok(3)]
        show ?thesis
        proof (cases rule: same_result_cases)
          case (err e)
          then show ?thesis unfolding ea eb using ok(1,2) by (simp add: same_result_simps)
        next
          case ok2: (ok a4 b4)
          have e4: "depth a4 = depth b4" "norm_img a4 = norm_img b4" "active a4 = active b4"
            using ok2(3) by (simp_all add: same_images_def)
          have "same_result same_images (pop a4) (pop b4)"
            by (cases "active b4")
               (simp_all add: pop_def same_images_def same_result_simps emit_def e4)
          then show ?thesis unfolding ea eb using ok(1,2) ok2(1,2) by simp
        qed
      qed
    qed
  qed
qed

subsection \<open>The adaptive renderer against exhaustive evaluation\<close>










































lemma Render_summary:
  assumes "0 < count_Gradient t" "0 < count_double t"
  shows "\<exists>s0 tr. recurse t abort r (s\<lparr>depth := (\<lambda>p. None), norm_img := (\<lambda>p. Some 0)\<rparr>) = Inr s0 \<and>
           Render t r abort clip s = Inr (if clip then clip_norm r s0 else s0) \<and>
           trace s0 = trace s @ tr \<and> depth s0 = replay_depth tr (\<lambda>p. None) \<and>
           norm_img s0 = replay_norm tr (\<lambda>p. Some 0) \<and> mono_from (\<lambda>p. None) tr \<and>
           list_all (rec_event (count_Gradient t)) tr \<and> nested tr \<and> active s0 = active s"
proof -
  define s1 where "s1 = s\<lparr>depth := (\<lambda>p. None), norm_img := (\<lambda>p. Some 0)\<rparr>"
  from recurse_summary[OF assms, of abort r s1] obtain s0 tr where
    s0: "recurse t abort r s1 = Inr s0" "run_rel (count_Gradient t) s1 s0 tr" "nested tr"
      "active s0 = active s1"
    by blast
  have "Render t r abort clip s = Inr (if clip then clip_norm r s0 else s0)"
    using s0(1) by (simp add: Render_def s1_def)
  moreover have "trace s0 = trace s @ tr" "depth s0 = replay_depth tr (\<lambda>p. None)"
    "norm_img s0 = replay_norm tr (\<lambda>p. Some 0)" "mono_from (\<lambda>p. None) tr"
    "list_all (rec_event (count_Gradient t)) tr" "active s0 = active s"
    using s0(2,4) by (simp_all add: run_rel_def steps_def s1_def)
  ultimately show ?thesis
    using s0(1,3) unfolding s1_def by blast
qed

lemma clip_norm_fields:
  "depth (clip_norm r s) = depth s" "trace (clip_norm r s) = trace s"
  "active (clip_norm r s) = active s"
  by (simp_all add: clip_norm_def)


section \<open>The claims\<close>

text \<open>
  C2. Throughout a render no pixel's depth decreases. For every call of \<open>recurse\<close>, from
  any state, and for \<open>Render\<close>: the call returns, the depth image it leaves is the one
  obtained by replaying its recorded writes (the per-voxel updates of \<open>pixels\<close> and the
  fills of \<open>recurse\<close>) in order, and every one of these writes leaves every pixel's depth
  greater than or equal to its previous value.
\<close>

theorem depth_never_decreases:
  assumes "0 < count_Gradient t" "0 < count_double t"
  shows "(\<exists>s' tr. recurse t abort r s = Inr s' \<and> trace s' = trace s @ tr \<and>
            depth s' = replay_depth tr (depth s) \<and> mono_from (depth s) tr \<and>
            depth s \<le> depth s') \<and>
         (\<exists>s' tr. Render t r abort clip s = Inr s' \<and> trace s' = trace s @ tr \<and>
            depth s' = replay_depth tr (\<lambda>p. None) \<and> mono_from (\<lambda>p. None) tr)"
proof
  from recurse_summary[OF assms, of abort r s] obtain s' tr where
    s': "recurse t abort r s = Inr s'" "run_rel (count_Gradient t) s s' tr"
    by blast
  have a: "trace s' = trace s @ tr" "depth s' = replay_depth tr (depth s)"
    "mono_from (depth s) tr"
    using s'(2) by (simp_all add: run_rel_def steps_def)
  have "depth s \<le> replay_depth tr (depth s)"
    using a(3) by (rule mono_from_le)
  then have "depth s \<le> depth s'" by (simp only: a(2))
  then show "\<exists>s' tr. recurse t abort r s = Inr s' \<and> trace s' = trace s @ tr \<and>
            depth s' = replay_depth tr (depth s) \<and> mono_from (depth s) tr \<and>
            depth s \<le> depth s'"
    using s'(1) a by blast
next
  from Render_summary[OF assms, of abort r s clip] obtain s0 tr where
    s0: "Render t r abort clip s = Inr (if clip then clip_norm r s0 else s0)"
      "trace s0 = trace s @ tr" "depth s0 = replay_depth tr (\<lambda>p. None)"
      "mono_from (\<lambda>p. None) tr"
    by blast
  define s' where "s' = (if clip then clip_norm r s0 else s0)"
  have "trace s' = trace s @ tr" "depth s' = replay_depth tr (\<lambda>p. None)"
    using s0(2,3) by (simp_all add: s'_def clip_norm_fields)
  then show "\<exists>s' tr. Render t r abort clip s = Inr s' \<and> trace s' = trace s @ tr \<and>
            depth s' = replay_depth tr (\<lambda>p. None) \<and> mono_from (\<lambda>p. None) tr"
    using s0(1,4) unfolding s'_def by blast
qed

theorem depth_never_decreases_witness:
  "0 < count_Gradient solid_tree \<and> 0 < count_double solid_tree \<and>
   (\<exists>s' tr. Render solid_tree unit_region (\<lambda>n. False) True blank_state = Inr s' \<and>
      trace s' = trace blank_state @ tr \<and> depth s' = replay_depth tr (\<lambda>p. None) \<and>
      mono_from (\<lambda>p. None) tr)"
  using depth_never_decreases[of solid_tree "\<lambda>n. False" unit_region blank_state True]
  by (simp add: solid_tree_def)




text \<open>
  C6 (as amended). The packing has no guard for a zero length. For a gradient of
  non-zero length the divisor \<open>2 * len\<close> is not zero, the three quotients are finite and
  the packed colour is defined. For a gradient of zero length the quotient is \<open>0 / 0\<close>,
  a NaN, and the conversion to the channels is undefined.
\<close>

theorem pack_defined_iff_nonzero:
  "(len g \<noteq> 0 \<longrightarrow>
      2 * len g \<noteq> 0 \<and> fdiv (dx g) (2 * len g) = Finite (dx g / (2 * len g)) \<and>
      fdiv (dy g) (2 * len g) = Finite (dy g / (2 * len g)) \<and>
      fdiv (dz g) (2 * len g) = Finite (dz g / (2 * len g)) \<and> pack g \<noteq> None) \<and>
   (len g = 0 \<longrightarrow> fdiv (dx g) (2 * len g) = NaN \<and> pack g = None)"
  using pack_value(1)[of g] pack_zero[of g] by simp

theorem pack_defined_iff_nonzero_witness:
  "len \<lparr>dx = 3, dy = 0, dz = 4\<rparr> \<noteq> 0 \<and> pack \<lparr>dx = 3, dy = 0, dz = 4\<rparr> \<noteq> None \<and>
   len \<lparr>dx = 0, dy = 0, dz = 0\<rparr> = 0 \<and> pack \<lparr>dx = 0, dy = 0, dz = 0\<rparr> = None"
  using pack_defined_iff_nonzero[of "\<lparr>dx = 3, dy = 0, dz = 4\<rparr>"]
    pack_defined_iff_nonzero[of "\<lparr>dx = 0, dy = 0, dz = 0\<rparr>"] len_zero_iff[of "\<lparr>dx = 3, dy = 0, dz = 4\<rparr>"]
  by (simp add: len_def)

text \<open>
  C6 as stated fails: for the zero gradient the code divides by zero, the quotient is
  a NaN, and no sentinel is written: the packed value is undefined.
\<close>

theorem pack_zero_gradient_counterexample:
  "len \<lparr>dx = 0, dy = 0, dz = 0\<rparr> = 0 \<and>
   fdiv (dx \<lparr>dx = 0, dy = 0, dz = 0\<rparr>) (2 * len \<lparr>dx = 0, dy = 0, dz = 0\<rparr>) = NaN \<and>
   pack \<lparr>dx = 0, dy = 0, dz = 0\<rparr> = None"
  by (simp add: pack_def len_def channel_def)


text \<open>
  C10. The staging buffer of \<open>pixels\<close> does not overflow. When the capacity
  \<open>NUM_POINTS\<close> is positive, \<open>pixels\<close> returns without a store outside \<open>xs\<close>, \<open>ys\<close> and
  the lanes: every \<open>setPoint\<close> it makes has an index below \<open>NUM_POINTS\<close>, every gradient
  evaluation is of at least one and at most \<open>NUM_POINTS\<close> points, and \<open>norm_count\<close> is 0
  at the return.
\<close>

theorem staging_in_bounds:
  assumes "0 < count_Gradient t"
  shows "\<exists>s' tr. pixels t r s = Inr s' \<and> trace s' = trace s @ tr \<and>
           list_all (pixel_event (count_Gradient t)) tr \<and> norm_count s' = 0"
  using pixels_pix_rel[OF assms, of r s] unfolding pix_rel_def steps_def by blast

theorem staging_in_bounds_witness:
  "0 < count_Gradient solid_tree \<and>
   (\<exists>s' tr. pixels solid_tree unit_region blank_state = Inr s' \<and>
      trace s' = trace blank_state @ tr \<and>
      list_all (pixel_event (count_Gradient solid_tree)) tr \<and> norm_count s' = 0)"
  using staging_in_bounds[of solid_tree unit_region blank_state]
  by (simp add: solid_tree_def)


text \<open>
  C3 (as amended). An interior call (flag not set, region not occluded, more voxels than
  the batch width) makes one interval evaluation. If the upper bound is strictly
  negative it records that evaluation and one fill and nothing else (no gradient
  evaluation, no further call): every pixel under the region gets the maximum of its
  previous depth and the region's top position, all other pixels and the normal
  image are unchanged. If the lower bound is strictly positive (and the upper bound
  not negative) it records the evaluation only and changes no pixel. If the interval
  straddles zero it subdivides: \<open>push\<close>, the two recursive calls, \<open>pop\<close>.
\<close>

theorem interval_classification:
  assumes "interior t abort r s"
  shows "(upper (eval_Interval t (active s) (box_of r)) < 0 \<longrightarrow>
            (\<exists>s'. recurse t abort r s = Inr s' \<and>
               trace s' = trace s @ [AbortLoad False, EvalInterval r, DepthFill r (ztop r)] \<and>
               (\<forall>p. depth s' p =
                  (if in_block r p then max (depth s p) (Some (ztop r)) else depth s p)) \<and>
               norm_img s' = norm_img s)) \<and>
         (\<not> upper (eval_Interval t (active s) (box_of r)) < 0 \<and>
          0 < lower (eval_Interval t (active s) (box_of r)) \<longrightarrow>
            (\<exists>s'. recurse t abort r s = Inr s' \<and>
               trace s' = trace s @ [AbortLoad False, EvalInterval r] \<and>
               depth s' = depth s \<and> norm_img s' = norm_img s)) \<and>
         (straddles t r s \<and> canSplit r \<longrightarrow>
            recurse t abort r s =
              (case recurse t abort (snd (split r)) (push (eval_interval r (load_abort abort s))) of
                 Inl e \<Rightarrow> Inl e
               | Inr s1 \<Rightarrow>
                   (case recurse t abort (fst (split r)) s1 of
                      Inl e \<Rightarrow> Inl e
                    | Inr s2 \<Rightarrow> pop s2)) \<and>
            trace (push (eval_interval r (load_abort abort s))) =
              trace s @ [AbortLoad False, EvalInterval r, Push])"
proof (intro conjI impI)
  have na: "\<not> abort (clock s)" using assms by (rule interior_load)
  {
    assume u: "upper (eval_Interval t (active s) (box_of r)) < 0"
    have eq: "recurse t abort r s = Inr (fill r (eval_interval r (load_abort abort s)))"
      using assms u by (rule recurse_fill)
    show "\<exists>s'. recurse t abort r s = Inr s' \<and>
               trace s' = trace s @ [AbortLoad False, EvalInterval r, DepthFill r (ztop r)] \<and>
               (\<forall>p. depth s' p =
                  (if in_block r p then max (depth s p) (Some (ztop r)) else depth s p)) \<and>
               norm_img s' = norm_img s"
      unfolding eq using na
      by (simp add: fill_def eval_interval_def load_abort_def emit_def fill_depth_def)
  }
  {
    assume "\<not> upper (eval_Interval t (active s) (box_of r)) < 0 \<and>
          0 < lower (eval_Interval t (active s) (box_of r))"
    then have eq: "recurse t abort r s = Inr (eval_interval r (load_abort abort s))"
      using assms by (intro recurse_skip) simp_all
    show "\<exists>s'. recurse t abort r s = Inr s' \<and>
               trace s' = trace s @ [AbortLoad False, EvalInterval r] \<and>
               depth s' = depth s \<and> norm_img s' = norm_img s"
      unfolding eq using na by (simp add: eval_interval_def load_abort_def emit_def)
  }
  {
    assume "straddles t r s \<and> canSplit r"
    then have "splits t abort r s" using assms by (simp add: splits_def)
    then show "recurse t abort r s =
              (case recurse t abort (snd (split r)) (push (eval_interval r (load_abort abort s))) of
                 Inl e \<Rightarrow> Inl e
               | Inr s1 \<Rightarrow>
                   (case recurse t abort (fst (split r)) s1 of
                      Inl e \<Rightarrow> Inl e
                    | Inr s2 \<Rightarrow> pop s2))"
      by (rule recurse_split)
    show "trace (push (eval_interval r (load_abort abort s))) =
              trace s @ [AbortLoad False, EvalInterval r, Push]"
      using na by (simp add: push_def eval_interval_def load_abort_def emit_def)
  }
qed

theorem interval_classification_witness:
  "interior solid_tree (\<lambda>n. False) slab_region half_seen \<and>
   upper (eval_Interval solid_tree (active half_seen) (box_of slab_region)) < 0 \<and>
   (\<exists>s'. recurse solid_tree (\<lambda>n. False) slab_region half_seen = Inr s' \<and>
      trace s' = trace half_seen @
        [AbortLoad False, EvalInterval slab_region, DepthFill slab_region (ztop slab_region)] \<and>
      depth s' (0, 1) = Some (- (1 / 400)) \<and> depth s' (0, 0) = Some (1 / 2))"
proof -
  have u: "upper (eval_Interval solid_tree (active half_seen) (box_of slab_region)) < 0"
    by (simp add: solid_tree_def)
  from interval_classification[OF slab_interior] u obtain s' where
    s': "recurse solid_tree (\<lambda>n. False) slab_region half_seen = Inr s'"
      "trace s' = trace half_seen @
        [AbortLoad False, EvalInterval slab_region, DepthFill slab_region (ztop slab_region)]"
      "\<forall>p. depth s' p = (if in_block slab_region p
          then max (depth half_seen p) (Some (ztop slab_region)) else depth half_seen p)"
    by blast
  have "depth s' (0, 1) = Some (- (1 / 400))" "depth s' (0, 0) = Some (1 / 2)"
    by (simp_all add: s'(3) half_seen_def blank_state_def ztop_def pos_def slab_region_def
        in_block_def max_def)
  then show ?thesis using slab_interior u s'(1,2) by blast
qed

text \<open>
  C3 as stated fails where it says that the fill sets every pixel of the footprint to
  the region's maximum Z: a pixel that is already higher keeps its depth. Here the
  pixel \<open>(0, 0)\<close> holds depth \<open>1/2\<close> from a nearer region, the region filled has its top
  at \<open>-1/400\<close>, and after the fill the pixel still holds \<open>1/2\<close>.
\<close>

theorem fill_sets_top_counterexample:
  "interior solid_tree (\<lambda>n. False) slab_region half_seen \<and>
   upper (eval_Interval solid_tree (active half_seen) (box_of slab_region)) < 0 \<and>
   in_block slab_region (0, 0) \<and>
   (\<exists>s'. recurse solid_tree (\<lambda>n. False) slab_region half_seen = Inr s' \<and>
      depth s' (0, 0) = Some (1 / 2) \<and> depth s' (0, 0) \<noteq> Some (ztop slab_region))"
  using recurse_fill[OF slab_interior] slab_interior
  by (simp add: solid_tree_def half_seen_def blank_state_def ztop_def pos_def slab_region_def
      in_block_def max_def fill_def eval_interval_def load_abort_def emit_def fill_depth_def)

text \<open>
  C4 (as amended). With \<open>clip\<close> set, \<open>Render\<close> forces the normal \<open>0xffff7f7f\<close> on every
  pixel whose final depth equals the region's top position, however that depth was
  reached, and leaves the normal of every other pixel as computed; the depth image is
  the same as without \<open>clip\<close>. Without \<open>clip\<close>, \<open>Render\<close> returns the images as the
  recursion left them.
\<close>

theorem clip_forces_top_pixels:
  assumes "0 < count_Gradient t" "0 < count_double t"
  shows "\<exists>s0 s1. recurse t abort r (s\<lparr>depth := (\<lambda>p. None), norm_img := (\<lambda>p. Some 0)\<rparr>) = Inr s0 \<and>
           Render t r abort False s = Inr s0 \<and> Render t r abort True s = Inr s1 \<and>
           depth s1 = depth s0 \<and> trace s1 = trace s0 \<and>
           (\<forall>p. norm_img s1 p =
              (if depth s0 p = Some (ztop r) then Some 0xffff7f7f else norm_img s0 p))"
proof -
  from Render_summary[OF assms, of abort r s False] obtain s0 where
    s0: "recurse t abort r (s\<lparr>depth := (\<lambda>p. None), norm_img := (\<lambda>p. Some 0)\<rparr>) = Inr s0"
    by blast
  have "Render t r abort False s = Inr s0" "Render t r abort True s = Inr (clip_norm r s0)"
    using s0 by (simp_all add: Render_def)
  moreover have "depth (clip_norm r s0) = depth s0" "trace (clip_norm r s0) = trace s0"
    "\<forall>p. norm_img (clip_norm r s0) p =
              (if depth s0 p = Some (ztop r) then Some 0xffff7f7f else norm_img s0 p)"
    by (simp_all add: clip_norm_def)
  ultimately show ?thesis using s0 by blast
qed

theorem clip_forces_top_pixels_witness:
  "0 < count_Gradient solid_tree \<and> 0 < count_double solid_tree \<and>
   (\<exists>s0 s1. Render solid_tree unit_region (\<lambda>n. False) False blank_state = Inr s0 \<and>
      Render solid_tree unit_region (\<lambda>n. False) True blank_state = Inr s1 \<and>
      depth s1 = depth s0 \<and> depth s0 (0, 0) = Some (ztop unit_region) \<and>
      norm_img s1 (0, 0) = Some 0xffff7f7f)"
proof -
  from clip_forces_top_pixels[of solid_tree "\<lambda>n. False" unit_region blank_state]
  obtain s0 s1 where s: "Render solid_tree unit_region (\<lambda>n. False) False blank_state = Inr s0"
    "Render solid_tree unit_region (\<lambda>n. False) True blank_state = Inr s1" "depth s1 = depth s0"
    by (auto simp: solid_tree_def)
  have "depth s0 (0, 0) = Some (ztop unit_region)" "norm_img s1 (0, 0) = Some 0xffff7f7f"
    using render_unit[OF s(1)] render_unit[OF s(2)]
    by (simp_all add: ztop_def pos_def unit_region_def unit_axis_def)
  then show ?thesis using s by (auto simp: solid_tree_def)
qed

text \<open>
  C4 as stated fails where it restricts the forced normal to pixels resolved only by
  the opaque fill: on a one-voxel region inside the solid, the pixel is resolved by
  the per-voxel loop (no fill is recorded), its depth is the region's top position,
  its computed normal is \<open>0xff7f7fff\<close>, and with \<open>clip\<close> its normal is \<open>0xffff7f7f\<close>.
\<close>

theorem clip_fill_only_counterexample:
  "\<exists>s0 s1. Render solid_tree unit_region (\<lambda>n. False) False blank_state = Inr s0 \<and>
      Render solid_tree unit_region (\<lambda>n. False) True blank_state = Inr s1 \<and>
      depth s1 (0, 0) = Some (ztop unit_region) \<and>
      norm_img s0 (0, 0) = Some 0xff7f7fff \<and> norm_img s1 (0, 0) = Some 0xffff7f7f \<and>
      \<not> fill_only (trace s1) (0, 0)"
proof -
  from clip_forces_top_pixels[of solid_tree "\<lambda>n. False" unit_region blank_state]
  obtain s0 s1 where s: "Render solid_tree unit_region (\<lambda>n. False) False blank_state = Inr s0"
    "Render solid_tree unit_region (\<lambda>n. False) True blank_state = Inr s1"
    by (auto simp: solid_tree_def)
  show ?thesis
    using s render_unit[OF s(1)] render_unit[OF s(2)]
    by (auto simp: ztop_def pos_def unit_region_def unit_axis_def fill_only_def)
qed



text \<open>
  C9. Two runs of \<open>Render\<close> with the same tree responses, region and \<open>clip\<close>, in which the
  flag is never set, give the same result: the same error, or the same depth image and
  the same normal image (a normal assembled from an undefined conversion being
  undefined in both). The two runs may start from states that differ in everything
  the source leaves uninitialised or overwrites (the content of the fresh images, of
  \<open>xs\<close> and \<open>ys\<close>, of the lanes of the tree, \<open>index\<close>, \<open>norm_count\<close>), as long as the
  activation stack of the tree is the same. In particular a second run on the tree as
  the first run left it returns the same images.
\<close>

theorem render_deterministic:
  assumes "\<forall>n. \<not> abort1 n" "\<forall>n. \<not> abort2 n" "active s1 = active s2"
  shows "same_result same_images (Render t r abort1 clip s1) (Render t r abort2 clip s2) \<and>
         (0 < count_Gradient t \<and> 0 < count_double t \<longrightarrow>
            (\<exists>s' s''. Render t r abort1 clip s1 = Inr s' \<and> Render t r abort2 clip s' = Inr s'' \<and>
               depth s'' = depth s' \<and> norm_img s'' = norm_img s'))"
proof -
  have e: "abort2 = abort1" using assms(1,2) by (intro ext) simp
  have R: "same_result same_images (Render t r abort1 clip a) (Render t r abort1 clip b)"
    if "active a = active b" for a b
  proof -
    define a1 where "a1 = a\<lparr>depth := (\<lambda>p. None), norm_img := (\<lambda>p. Some 0)\<rparr>"
    define b1 where "b1 = b\<lparr>depth := (\<lambda>p. None), norm_img := (\<lambda>p. Some 0)\<rparr>"
    have "same_images a1 b1" using that by (simp add: same_images_def a1_def b1_def)
    from recurse_same[OF assms(1) this, of t r] show ?thesis
    proof (cases rule: same_result_cases)
      case (err e)
      then show ?thesis by (simp add: Render_def a1_def b1_def same_result_simps)
    next
      case (ok u v)
      have du: "depth u = depth v" "norm_img u = norm_img v" "active u = active v"
        using ok(3) by (simp_all add: same_images_def)
      have "same_images (clip_norm r u) (clip_norm r v)"
        by (simp add: same_images_def clip_norm_def du cong: if_cong)
      then show ?thesis
        using ok by (simp add: Render_def a1_def[symmetric] b1_def[symmetric] same_result_simps)
    qed
  qed
  have 1: "same_result same_images (Render t r abort1 clip s1) (Render t r abort2 clip s2)"
    unfolding e using assms(3) by (rule R)
  have 2: "\<exists>s' s''. Render t r abort1 clip s1 = Inr s' \<and> Render t r abort2 clip s' = Inr s'' \<and>
               depth s'' = depth s' \<and> norm_img s'' = norm_img s'"
    if np: "0 < count_Gradient t" "0 < count_double t"
  proof -
    from Render_summary[OF np, of abort1 r s1 clip] obtain s0 where
      s0: "Render t r abort1 clip s1 = Inr (if clip then clip_norm r s0 else s0)"
        "active s0 = active s1"
      by blast
    define s' where "s' = (if clip then clip_norm r s0 else s0)"
    have a: "active s1 = active s'" using s0(2) by (simp add: s'_def clip_norm_def)
    from R[OF a] s0(1) obtain s'' where "Render t r abort1 clip s' = Inr s''" "same_images s' s''"
      unfolding s'_def[symmetric] by (cases rule: same_result_cases) simp_all
    then show ?thesis using s0(1) unfolding e s'_def[symmetric] by (auto simp: same_images_def)
  qed
  show ?thesis using 1 2 by blast
qed

theorem render_deterministic_witness:
  "(\<forall>n. \<not> (\<lambda>n. False) n) \<and> active blank_state = active (blank_state\<lparr>xs := (\<lambda>i. 7)\<rparr>) \<and>
   0 < count_Gradient solid_tree \<and> 0 < count_double solid_tree \<and>
   same_result same_images (Render solid_tree unit_region (\<lambda>n. False) True blank_state)
     (Render solid_tree unit_region (\<lambda>n. False) True (blank_state\<lparr>xs := (\<lambda>i. 7)\<rparr>)) \<and>
   (\<exists>s' s''. Render solid_tree unit_region (\<lambda>n. False) True blank_state = Inr s' \<and>
      Render solid_tree unit_region (\<lambda>n. False) True s' = Inr s'' \<and>
      depth s'' = depth s' \<and> norm_img s'' = norm_img s')"
  using render_deterministic[of "\<lambda>n. False" "\<lambda>n. False" blank_state "blank_state\<lparr>xs := (\<lambda>i. 7)\<rparr>"
      solid_tree unit_region True]
  by (simp add: solid_tree_def)




end
